theory Spec2Isabelle
  imports Main "HOL-Library.AList"
begin

section \<open>Values and the reactive store\<close>

text \<open>
  The reactive core of the bundle (modules 22, 25, 30, 67 and 105 of part 003, and the
  array interceptor of part 001) works on one single-threaded JavaScript heap. The model
  passes that heap explicitly: every function takes the state and returns the new one.
  Watchers, Deps, Observers and the closures made by \<open>defineReactive\<close> are held in
  tables indexed by their identity (the \<open>id\<close> field for a Dep and a Watcher, the
  allocation index for the others).
\<close>

type_synonym wid = nat
type_synonym did = nat
type_synonym addr = nat
type_synonym oid = nat
type_synonym cid = nat
type_synonym vmid = nat

datatype val =
    Undefined | Null | Bool bool | Num int | NaN | Str string | Fun nat | Ref addr

datatype error = TypeError

text \<open>\<open>a === b\<close>: identity on references, equality on primitives, and NaN differs from itself.\<close>

definition strict_eq :: "val \<Rightarrow> val \<Rightarrow> bool" where
  "strict_eq a b = (a = b \<and> a \<noteq> NaN)"

text \<open>\<open>isObject(obj)\<close>: \<open>obj !== null && typeof obj === 'object'\<close>.\<close>

fun isObject :: "val \<Rightarrow> bool" where
  "isObject (Ref a) = True"
| "isObject v = False"

record watcher =
  w_vm :: "vmid option"
  w_active :: bool
  w_lazy :: bool
  w_dirty :: bool
  w_sync :: bool
  w_user :: bool
  w_deep :: bool
  w_queued :: bool
  w_shallow :: bool
  w_deps :: "did list"
  w_newDeps :: "did list"
  w_depIds :: "did set"
  w_newDepIds :: "did set"
  w_value :: val

record vm =
  vm_isBeingDestroyed :: bool
  vm_vForRemoving :: bool
  vm_watchers :: "wid list"

datatype okind = ArrayObj | PlainObj | OtherObj

datatype accessor = UserAcc nat | ReactiveAcc cid

datatype slot = DataSlot val | AccessorSlot "accessor option" "accessor option"

record propdesc =
  pd_enumerable :: bool
  pd_configurable :: bool
  pd_slot :: slot

record jsobj =
  o_kind :: okind
  o_extensible :: bool
  o_isVue :: bool
  o_ob :: "oid option"
  o_augmented :: bool
  o_elems :: "val list"
  o_props :: "(string \<times> propdesc) list"

record closure =
  c_obj :: addr
  c_key :: string
  c_dep :: did
  c_val :: val
  c_childOb :: "oid option"
  c_getter :: "accessor option"
  c_setter :: "accessor option"

record observer =
  ob_value :: addr
  ob_dep :: did
  ob_vms :: "vmid list"

text \<open>
  The state. \<open>subs\<close> and \<open>dep_uid\<close> are the Deps (module 30), \<open>target\<close> is the global
  \<open>Dep.target\<close>, \<open>watcher_uid\<close> is the counter \<open>uid\<close> of the watcher module (module 25),
  \<open>queue\<close> to \<open>waiting\<close> are the module variables of the batcher
  (module 67), \<open>scheduled\<close> counts the \<open>nextTick(flushBatcherQueue)\<close> registrations,
  \<open>warnings\<close> lists the watchers the runaway diagnostic has named,
  \<open>async\<close> is \<open>config.async\<close>, \<open>shouldConvert\<close> the module variable of the observer
  (module 22). \<open>heap\<close> holds the objects and arrays of the application (a reference is
  an index into it), \<open>closures\<close> the variables each call of \<open>defineReactive\<close> has
  captured, \<open>observers\<close> the Observer instances; the two counters give the next free
  index. \<open>user\<close> is whatever the callbacks of the application keep for
  themselves; no function of the core reads or writes it.
\<close>

record 'u state =
  subs :: "did \<Rightarrow> wid list"
  dep_uid :: nat
  target :: "wid option"
  watchers :: "wid \<Rightarrow> watcher"
  watcher_uid :: nat
  vms :: "vmid \<Rightarrow> vm"
  queue :: "wid list"
  userQueue :: "wid list"
  has :: "wid \<Rightarrow> nat option"
  circular :: "wid \<Rightarrow> nat"
  waiting :: bool
  scheduled :: nat
  warnings :: "wid list"
  async :: bool
  shouldConvert :: bool
  heap :: "jsobj list"
  closures :: "cid \<Rightarrow> closure"
  closure_uid :: nat
  observers :: "oid \<Rightarrow> observer"
  observer_uid :: nat
  user :: 'u

text \<open>
  The code of the application: what a watcher's getter does when it is called, its
  callback, its value hooks, and the accessors a property had before it was made
  reactive. A getter is given by the Deps on which its property reads call
  \<open>depend()\<close>, in order, and by its result (\<open>None\<close> when it throws; the reads made
  before the throw are in the list). \<open>e_traverse\<close> gives the same list for the reads
  the deep traversal of a value makes. \<open>e_dev\<close> is the build-time condition
  \<open>process.env.NODE_ENV !== 'production'\<close>, which the bundle has replaced by \<open>false\<close>.
\<close>

record 'u env =
  e_getter :: "wid \<Rightarrow> 'u state \<Rightarrow> did list \<times> val option"
  e_cb :: "wid \<Rightarrow> val \<Rightarrow> val \<Rightarrow> 'u state \<Rightarrow> 'u state"
  e_traverse :: "val \<Rightarrow> 'u state \<Rightarrow> did list"
  e_preProcess :: "wid \<Rightarrow> (val \<Rightarrow> val) option"
  e_filters :: "wid \<Rightarrow> (val \<Rightarrow> val) option"
  e_postProcess :: "wid \<Rightarrow> (val \<Rightarrow> val) option"
  e_call_getter :: "accessor \<Rightarrow> 'u state \<Rightarrow> val"
  e_call_setter :: "accessor \<Rightarrow> val \<Rightarrow> 'u state \<Rightarrow> 'u state"
  e_dev :: bool

definition maxUpdateCount :: nat where
  "maxUpdateCount = 100"

section \<open>Array helpers: indexOf and $remove\<close>

text \<open>\<open>indexOf(arr, obj)\<close> scans from the end: \<open>var i = arr.length; while (i--) ...\<close>.\<close>

fun indexOf_from :: "nat \<Rightarrow> 'a list \<Rightarrow> 'a \<Rightarrow> nat option" where
  "indexOf_from 0 arr obj = None"
| "indexOf_from (Suc i) arr obj = (if arr ! i = obj then Some i else indexOf_from i arr obj)"

definition indexOf :: "'a list \<Rightarrow> 'a \<Rightarrow> nat option" where
  "indexOf arr obj = indexOf_from (length arr) arr obj"

text \<open>\<open>$remove(item)\<close> on an array that is not observed: \<open>splice(index, 1)\<close> at the index found.\<close>

definition remove_item :: "'a list \<Rightarrow> 'a \<Rightarrow> 'a list" where
  "remove_item xs item =
     (if xs = [] then xs
      else case indexOf xs item of
             Some i \<Rightarrow> take i xs @ drop (Suc i) xs
           | None \<Rightarrow> xs)"

section \<open>Dep (module 30)\<close>

text \<open>\<open>new Dep()\<close>: \<open>this.id = uid++; this.subs = []\<close>.\<close>

definition new_Dep :: "'u state \<Rightarrow> did \<times> 'u state" where
  "new_Dep s = (dep_uid s, s\<lparr>subs := (subs s)(dep_uid s := []), dep_uid := Suc (dep_uid s)\<rparr>)"

definition addSub :: "did \<Rightarrow> wid \<Rightarrow> 'u state \<Rightarrow> 'u state" where
  "addSub d w s = s\<lparr>subs := (subs s)(d := subs s d @ [w])\<rparr>"

definition removeSub :: "did \<Rightarrow> wid \<Rightarrow> 'u state \<Rightarrow> 'u state" where
  "removeSub d w s = s\<lparr>subs := (subs s)(d := remove_item (subs s d) w)\<rparr>"

text \<open>
  \<open>Watcher.prototype.addDep\<close>: a Dep is taken once per pass (\<open>newDepIds\<close>), and the
  watcher subscribes only when it was not subscribed by the pass before (\<open>depIds\<close>).
\<close>

definition addDep :: "wid \<Rightarrow> did \<Rightarrow> 'u state \<Rightarrow> 'u state" where
  "addDep w d s =
     (let W = watchers s w in
      if d \<notin> w_newDepIds W then
        let s1 = s\<lparr>watchers := (watchers s)
                   (w := W\<lparr>w_newDepIds := insert d (w_newDepIds W),
                           w_newDeps := w_newDeps W @ [d]\<rparr>)\<rparr>
        in if d \<notin> w_depIds W then addSub d w s1 else s1
      else s)"

text \<open>\<open>Dep.prototype.depend\<close>: \<open>Dep.target.addDep(this)\<close>, a TypeError when \<open>Dep.target\<close> is null.\<close>

definition depend :: "did \<Rightarrow> 'u state \<Rightarrow> error + 'u state" where
  "depend d s = (case target s of None \<Rightarrow> Inl TypeError | Some w \<Rightarrow> Inr (addDep w d s))"

text \<open>
  \<open>Dep.prototype.notify\<close>: \<open>var subs = toArray(this.subs)\<close>, then \<open>subs[i].update()\<close> for
  each index of the copy. The method \<open>update\<close> of a subscriber is looked up on the
  subscriber, so it is a parameter here; the watcher's own is \<open>update\<close> below.
\<close>

definition toArray :: "'a list \<Rightarrow> 'a list" where
  "toArray xs = map (\<lambda>i. xs ! i) [0 ..< length xs]"

definition notify :: "(wid \<Rightarrow> 'u state \<Rightarrow> 'u state) \<Rightarrow> did \<Rightarrow> 'u state \<Rightarrow> 'u state" where
  "notify upd d s = fold upd (toArray (subs s d)) s"

section \<open>Watcher (module 25)\<close>

definition beforeGet :: "wid \<Rightarrow> 'u state \<Rightarrow> 'u state" where
  "beforeGet w s = s\<lparr>target := Some w\<rparr>"

text \<open>
  \<open>Watcher.prototype.afterGet\<close>: clear the marker, leave the Deps of the last pass that
  this pass did not take (the loop runs from the last index down), then swap the two
  buffers and empty the scratch one.
\<close>

definition afterGet :: "wid \<Rightarrow> 'u state \<Rightarrow> 'u state" where
  "afterGet w s =
     (let s1 = s\<lparr>target := None\<rparr>;
          W = watchers s1 w;
          s2 = fold (\<lambda>d t. if d \<notin> w_newDepIds W then removeSub d w t else t)
                 (rev (w_deps W)) s1;
          W2 = watchers s2 w
      in s2\<lparr>watchers := (watchers s2)
              (w := W2\<lparr>w_depIds := w_newDepIds W2, w_newDepIds := {},
                       w_deps := w_newDeps W2, w_newDeps := []\<rparr>)\<rparr>)"

text \<open>
  A property read made while the getter runs: the reactive getter calls \<open>depend()\<close> on
  the Dep when \<open>Dep.target\<close> is set, and does nothing to the Deps otherwise.
\<close>

definition track :: "did \<Rightarrow> 'u state \<Rightarrow> 'u state" where
  "track d s = (case target s of None \<Rightarrow> s | Some w \<Rightarrow> addDep w d s)"

definition apply_hook :: "(val \<Rightarrow> val) option \<Rightarrow> val \<Rightarrow> val" where
  "apply_hook h v = (case h of None \<Rightarrow> v | Some f \<Rightarrow> f v)"

text \<open>
  \<open>Watcher.prototype.get\<close>. The \<open>try\<close> around the getter call leaves \<open>value\<close> undefined
  when the getter throws; the \<open>catch\<close> body is under \<open>if (false)\<close>.
\<close>

definition get :: "'u env \<Rightarrow> wid \<Rightarrow> 'u state \<Rightarrow> val \<times> 'u state" where
  "get U w s =
     (let s1 = beforeGet w s;
          (reads, res) = e_getter U w s1;
          s2 = fold track reads s1;
          value = (case res of None \<Rightarrow> Undefined | Some v \<Rightarrow> v);
          s3 = (if w_deep (watchers s2 w) then fold track (e_traverse U value s2) s2 else s2);
          value1 = apply_hook (e_preProcess U w) value;
          value2 = apply_hook (e_filters U w) value1;
          value3 = apply_hook (e_postProcess U w) value2;
          s4 = afterGet w s3
      in (value3, s4))"

text \<open>
  \<open>new Watcher(vm, expOrFn, cb, options)\<close>: the options that the core reads, the entry
  in \<open>vm._watchers\<close>, the id \<open>++uid\<close>, the empty buffers, and the first evaluation unless
  the watcher is lazy. The getter and the callback of the new id are in the environment.
\<close>

record watcher_options =
  opt_lazy :: bool
  opt_sync :: bool
  opt_user :: bool
  opt_deep :: bool

definition new_Watcher :: "'u env \<Rightarrow> vmid \<Rightarrow> watcher_options \<Rightarrow> 'u state \<Rightarrow> wid \<times> 'u state" where
  "new_Watcher U v opts s =
     (let w = Suc (watcher_uid s);
          s1 = s\<lparr>vms := (vms s)(v := (vms s v)\<lparr>vm_watchers := vm_watchers (vms s v) @ [w]\<rparr>),
                 watcher_uid := w,
                 watchers := (watchers s)
                   (w := \<lparr>w_vm = Some v, w_active = True, w_lazy = opt_lazy opts,
                          w_dirty = opt_lazy opts, w_sync = opt_sync opts, w_user = opt_user opts,
                          w_deep = opt_deep opts, w_queued = False, w_shallow = False,
                          w_deps = [], w_newDeps = [], w_depIds = {}, w_newDepIds = {},
                          w_value = Undefined\<rparr>)\<rparr>;
          (value, s2) = (if opt_lazy opts then (Undefined, s1) else get U w s1)
      in (w, s2\<lparr>watchers := (watchers s2)
                  (w := (watchers s2 w)\<lparr>w_value := value, w_queued := False,
                                          w_shallow := False\<rparr>)\<rparr>))"

text \<open>
  \<open>Watcher.prototype.run\<close>. The development branch (\<open>if (false)\<close>) calls the callback
  inside a \<open>try\<close> that rethrows; both branches make the same call.
\<close>

definition run :: "'u env \<Rightarrow> wid \<Rightarrow> 'u state \<Rightarrow> 'u state" where
  "run U w s =
     (if w_active (watchers s w) then
        let (value, s1) = get U w s;
            W = watchers s1 w;
            s2 = (if \<not> strict_eq value (w_value W)
                     \<or> ((isObject value \<or> w_deep W) \<and> \<not> w_shallow W)
                  then let oldValue = w_value W;
                           s' = s1\<lparr>watchers := (watchers s1)(w := W\<lparr>w_value := value\<rparr>)\<rparr>
                       in e_cb U w value oldValue s'
                  else s1)
        in s2\<lparr>watchers := (watchers s2)
                (w := (watchers s2 w)\<lparr>w_queued := False, w_shallow := False\<rparr>)\<rparr>
      else s)"

section \<open>Batcher (module 67)\<close>

definition resetBatcherState :: "'u state \<Rightarrow> 'u state" where
  "resetBatcherState s =
     s\<lparr>queue := [], userQueue := [], has := (\<lambda>_. None), circular := (\<lambda>_. 0), waiting := False\<rparr>"

text \<open>
  \<open>pushWatcher\<close>: \<open>has[id] == null\<close> holds for an id that is absent and for one that
  \<open>runBatcherQueue\<close> has set to null. \<open>nextTick(flushBatcherQueue)\<close> registers the flush
  for a later turn of the event loop; the model counts the registrations.
\<close>

definition pushWatcher :: "wid \<Rightarrow> 'u state \<Rightarrow> 'u state" where
  "pushWatcher w s =
     (if has s w = None then
        let s1 = (if w_user (watchers s w)
                  then s\<lparr>has := (has s)(w := Some (length (userQueue s))),
                         userQueue := userQueue s @ [w]\<rparr>
                  else s\<lparr>has := (has s)(w := Some (length (queue s))),
                         queue := queue s @ [w]\<rparr>)
        in if \<not> waiting s1 then s1\<lparr>waiting := True, scheduled := Suc (scheduled s1)\<rparr> else s1
      else s)"

text \<open>\<open>Watcher.prototype.update\<close>.\<close>

definition update :: "'u env \<Rightarrow> wid \<Rightarrow> bool \<Rightarrow> 'u state \<Rightarrow> 'u state" where
  "update U w shallow s =
     (let W = watchers s w in
      if w_lazy W then s\<lparr>watchers := (watchers s)(w := W\<lparr>w_dirty := True\<rparr>)\<rparr>
      else if w_sync W \<or> \<not> async s then run U w s
      else pushWatcher w
             (s\<lparr>watchers := (watchers s)
                  (w := W\<lparr>w_shallow := (if w_queued W then (if shallow then w_shallow W else False)
                                         else shallow),
                          w_queued := True\<rparr>)\<rparr>))"

text \<open>\<open>dep.notify()\<close> with watchers as subscribers: \<open>subs[i].update()\<close> passes no argument.\<close>

definition dep_notify :: "'u env \<Rightarrow> did \<Rightarrow> 'u state \<Rightarrow> 'u state" where
  "dep_notify U d s = notify (\<lambda>w. update U w False) d s"

text \<open>
  \<open>Watcher.prototype.teardown\<close>. An active watcher has its \<open>vm\<close>; reading
  \<open>this.vm._isBeingDestroyed\<close> on a null \<open>vm\<close> is a TypeError.
\<close>

definition teardown :: "wid \<Rightarrow> 'u state \<Rightarrow> error + 'u state" where
  "teardown w s =
     (let W = watchers s w in
      if w_active W then
        (case w_vm W of
           None \<Rightarrow> Inl TypeError
         | Some v \<Rightarrow>
             let V = vms s v;
                 s1 = (if \<not> vm_isBeingDestroyed V \<and> \<not> vm_vForRemoving V
                       then s\<lparr>vms := (vms s)(v := V\<lparr>vm_watchers := remove_item (vm_watchers V) w\<rparr>)\<rparr>
                       else s);
                 s2 = fold (\<lambda>d t. removeSub d w t) (rev (w_deps W)) s1
             in Inr (s2\<lparr>watchers := (watchers s2)
                        (w := (watchers s2 w)\<lparr>w_active := False, w_vm := None, w_value := Null\<rparr>)\<rparr>))
      else Inr s)"

text \<open>
  \<open>runBatcherQueue(queue)\<close>. The argument is one of the two module arrays, so a watcher
  pushed while the loop runs is seen by \<open>i < queue.length\<close>; the loop need not end, and
  the first argument bounds the number of iterations (\<open>None\<close>: the bound was reached).
  The counting of runs is the body of \<open>if (false)\<close> in the bundle, kept here under
  \<open>e_dev\<close>: past \<open>config._maxUpdateCount\<close> it warns and leaves the loop by \<open>break\<close>.
\<close>

definition the_queue :: "bool \<Rightarrow> 'u state \<Rightarrow> wid list" where
  "the_queue uq s = (if uq then userQueue s else queue s)"

definition clear_queue :: "bool \<Rightarrow> 'u state \<Rightarrow> 'u state" where
  "clear_queue uq s = (if uq then s\<lparr>userQueue := []\<rparr> else s\<lparr>queue := []\<rparr>)"

fun runBatcherQueue_loop :: "nat \<Rightarrow> 'u env \<Rightarrow> bool \<Rightarrow> nat \<Rightarrow> 'u state \<Rightarrow> 'u state option" where
  "runBatcherQueue_loop 0 U uq i s = None"
| "runBatcherQueue_loop (Suc n) U uq i s =
     (if i < length (the_queue uq s) then
        let w = the_queue uq s ! i;
            s1 = s\<lparr>has := (has s)(w := None)\<rparr>;
            s2 = run U w s1
        in if e_dev U then
             let s3 = s2\<lparr>circular := (circular s2)(w := circular s2 w + 1)\<rparr>
             in if circular s3 w > maxUpdateCount
                then Some (s3\<lparr>warnings := warnings s3 @ [w]\<rparr>)
                else runBatcherQueue_loop n U uq (i + 1) s3
           else runBatcherQueue_loop n U uq (i + 1) s2
      else Some s)"

definition runBatcherQueue :: "nat \<Rightarrow> 'u env \<Rightarrow> bool \<Rightarrow> 'u state \<Rightarrow> 'u state option" where
  "runBatcherQueue n U uq s = map_option (clear_queue uq) (runBatcherQueue_loop n U uq 0 s)"

text \<open>
  \<open>flushBatcherQueue\<close>: both queues, again while the first is not empty, then the reset.
  \<open>_index.devtools && config.devtools\<close> is false in the bundle.
\<close>

fun flushBatcherQueue :: "nat \<Rightarrow> 'u env \<Rightarrow> 'u state \<Rightarrow> 'u state option" where
  "flushBatcherQueue 0 U s = None"
| "flushBatcherQueue (Suc n) U s =
     (case runBatcherQueue n U False s of
        None \<Rightarrow> None
      | Some s1 \<Rightarrow>
          (case runBatcherQueue n U True s1 of
             None \<Rightarrow> None
           | Some s2 \<Rightarrow>
               if queue s2 \<noteq> [] then flushBatcherQueue n U s2
               else Some (resetBatcherState s2)))"

section \<open>Observer (module 22) and the array interceptor\<close>

text \<open>
  A reference that is no index of the heap stands for no object. Own properties are
  kept in the order of their creation, which is the order of \<open>Object.keys\<close>;
  \<open>Object.defineProperty\<close> replaces a descriptor in place or adds one at the end.
\<close>

definition own_prop :: "'u state \<Rightarrow> addr \<Rightarrow> string \<Rightarrow> propdesc option" where
  "own_prop s a key = map_of (o_props (heap s ! a)) key"

definition defineProperty :: "addr \<Rightarrow> string \<Rightarrow> propdesc \<Rightarrow> 'u state \<Rightarrow> 'u state" where
  "defineProperty a key pd s =
     s\<lparr>heap := (heap s)[a := (heap s ! a)\<lparr>o_props := AList.update key pd (o_props (heap s ! a))\<rparr>]\<rparr>"

definition object_keys :: "'u state \<Rightarrow> addr \<Rightarrow> string list" where
  "object_keys s a = map fst (filter (\<lambda>(k, pd). pd_enumerable pd) (o_props (heap s ! a)))"

text \<open>The whole sequence of \<open>depend()\<close> calls of one reactive getter: the first that throws ends it.\<close>

fun depends :: "did list \<Rightarrow> 'u state \<Rightarrow> error + 'u state" where
  "depends [] s = Inr s"
| "depends (d # ds) s = (case depend d s of Inl e \<Rightarrow> Inl e | Inr s1 \<Rightarrow> depends ds s1)"

text \<open>\<open>e && e.__ob__ && e.__ob__.dep.depend()\<close> for one element: the Dep it names, if any.\<close>

definition element_dep :: "'u state \<Rightarrow> val \<Rightarrow> did list" where
  "element_dep s e =
     (case e of
        Ref b \<Rightarrow> (if b < length (heap s)
                   then (case o_ob (heap s ! b) of
                           Some ob \<Rightarrow> [ob_dep (observers s ob)]
                         | None \<Rightarrow> [])
                   else [])
      | _ \<Rightarrow> [])"

definition isArray :: "'u state \<Rightarrow> val \<Rightarrow> bool" where
  "isArray s v = (case v of Ref a \<Rightarrow> a < length (heap s) \<and> o_kind (heap s ! a) = ArrayObj | _ \<Rightarrow> False)"

definition elements :: "'u state \<Rightarrow> val \<Rightarrow> val list" where
  "elements s v = (case v of Ref a \<Rightarrow> o_elems (heap s ! a) | _ \<Rightarrow> [])"

text \<open>
  \<open>reactiveGetter\<close>, the \<open>get\<close> that \<open>defineReactive\<close> installs, for the closure \<open>c\<close>. A call
  of \<open>depend()\<close> changes neither the heap nor the Observers, so the Deps of the later
  calls are read from the state on entry. A captured getter is a function that
  existed before; what it returns is given by the environment.
\<close>

definition current_value :: "'u env \<Rightarrow> cid \<Rightarrow> 'u state \<Rightarrow> val" where
  "current_value U c s =
     (case c_getter (closures s c) of
        Some g \<Rightarrow> e_call_getter U g s
      | None \<Rightarrow> c_val (closures s c))"

definition reactiveGetter :: "'u env \<Rightarrow> cid \<Rightarrow> 'u state \<Rightarrow> error + (val \<times> 'u state)" where
  "reactiveGetter U c s =
     (let value = current_value U c s in
      if target s \<noteq> None then
        (case depends
                ([c_dep (closures s c)] @
                 (case c_childOb (closures s c) of
                    Some ob \<Rightarrow> [ob_dep (observers s ob)]
                  | None \<Rightarrow> []) @
                 (if isArray s value then concat (map (element_dep s) (elements s value)) else []))
                s of
           Inl e \<Rightarrow> Inl e
         | Inr s1 \<Rightarrow> Inr (value, s1))
      else Inr (value, s))"

text \<open>
  \<open>obj[key]\<close> on an own property. The reactive getter does not throw (lemma
  \<open>reactiveGetter_returns\<close>), so the read has no error case.
\<close>

definition read_prop :: "'u env \<Rightarrow> addr \<Rightarrow> string \<Rightarrow> 'u state \<Rightarrow> val \<times> 'u state" where
  "read_prop U a key s =
     (case own_prop s a key of
        None \<Rightarrow> (Undefined, s)
      | Some pd \<Rightarrow>
          (case pd_slot pd of
             DataSlot v \<Rightarrow> (v, s)
           | AccessorSlot None st \<Rightarrow> (Undefined, s)
           | AccessorSlot (Some (UserAcc g)) st \<Rightarrow> (e_call_getter U (UserAcc g) s, s)
           | AccessorSlot (Some (ReactiveAcc c)) st \<Rightarrow>
               (case reactiveGetter U c s of Inr r \<Rightarrow> r | Inl e \<Rightarrow> (Undefined, s))))"

text \<open>
  \<open>defineReactive(obj, key, val)\<close>. The recursive \<open>observe(val)\<close> is the parameter
  \<open>obs\<close>; \<open>None\<close> is its running out of its bound. The caller passes a key the object
  has, or an extensible object.
\<close>

definition slot_getter :: "propdesc option \<Rightarrow> accessor option" where
  "slot_getter p = (case p of Some pd \<Rightarrow> (case pd_slot pd of AccessorSlot g st \<Rightarrow> g | _ \<Rightarrow> None) | None \<Rightarrow> None)"

definition slot_setter :: "propdesc option \<Rightarrow> accessor option" where
  "slot_setter p = (case p of Some pd \<Rightarrow> (case pd_slot pd of AccessorSlot g st \<Rightarrow> st | _ \<Rightarrow> None) | None \<Rightarrow> None)"

definition defineReactive ::
  "(val \<Rightarrow> 'u state \<Rightarrow> (oid option \<times> 'u state) option) \<Rightarrow>
   addr \<Rightarrow> string \<Rightarrow> val \<Rightarrow> 'u state \<Rightarrow> 'u state option" where
  "defineReactive obs obj key val s =
     (let (dep, s1) = new_Dep s;
          property = own_prop s1 obj key
      in if (case property of Some pd \<Rightarrow> \<not> pd_configurable pd | None \<Rightarrow> False) then Some s1
         else
           (case obs val s1 of
              None \<Rightarrow> None
            | Some (childOb, s2) \<Rightarrow>
                let c = closure_uid s2;
                    s3 = s2\<lparr>closures := (closures s2)
                              (c := \<lparr>c_obj = obj, c_key = key, c_dep = dep, c_val = val,
                                     c_childOb = childOb, c_getter = slot_getter property,
                                     c_setter = slot_setter property\<rparr>),
                            closure_uid := Suc c\<rparr>
                in Some (defineProperty obj key
                           \<lparr>pd_enumerable = True, pd_configurable = True,
                            pd_slot = AccessorSlot (Some (ReactiveAcc c)) (Some (ReactiveAcc c))\<rparr>
                           s3)))"

text \<open>\<open>Observer.prototype.walk\<close>, over the keys read on entry, and \<open>observeArray\<close>.\<close>

fun walk_keys ::
  "(val \<Rightarrow> 'u state \<Rightarrow> (oid option \<times> 'u state) option) \<Rightarrow> 'u env \<Rightarrow>
   addr \<Rightarrow> string list \<Rightarrow> 'u state \<Rightarrow> 'u state option" where
  "walk_keys obs U a [] s = Some s"
| "walk_keys obs U a (k # ks) s =
     (let (v, s1) = read_prop U a k s
      in case defineReactive obs a k v s1 of
           None \<Rightarrow> None
         | Some s2 \<Rightarrow> walk_keys obs U a ks s2)"

definition walk ::
  "(val \<Rightarrow> 'u state \<Rightarrow> (oid option \<times> 'u state) option) \<Rightarrow> 'u env \<Rightarrow>
   addr \<Rightarrow> 'u state \<Rightarrow> 'u state option" where
  "walk obs U a s = walk_keys obs U a (object_keys s a) s"

fun observeArray ::
  "(val \<Rightarrow> 'u state \<Rightarrow> (oid option \<times> 'u state) option) \<Rightarrow>
   val list \<Rightarrow> 'u state \<Rightarrow> 'u state option" where
  "observeArray obs [] s = Some s"
| "observeArray obs (x # xs) s =
     (case obs x s of None \<Rightarrow> None | Some (ob, s1) \<Rightarrow> observeArray obs xs s1)"

text \<open>
  \<open>new Observer(value)\<close>: the Dep, the hidden \<open>__ob__\<close> on the value, then the
  augmentation and the elements of an array, or the walk over the keys of an object.
\<close>

definition new_Observer ::
  "(val \<Rightarrow> 'u state \<Rightarrow> (oid option \<times> 'u state) option) \<Rightarrow> 'u env \<Rightarrow>
   addr \<Rightarrow> 'u state \<Rightarrow> (oid \<times> 'u state) option" where
  "new_Observer obs U a s =
     (let (dep, s1) = new_Dep s;
          ob = observer_uid s1;
          s2 = s1\<lparr>observers := (observers s1)(ob := \<lparr>ob_value = a, ob_dep = dep, ob_vms = []\<rparr>),
                  observer_uid := Suc ob\<rparr>;
          s3 = s2\<lparr>heap := (heap s2)[a := (heap s2 ! a)\<lparr>o_ob := Some ob\<rparr>]\<rparr>
      in map_option (Pair ob)
           (if o_kind (heap s3 ! a) = ArrayObj
            then let s4 = s3\<lparr>heap := (heap s3)[a := (heap s3 ! a)\<lparr>o_augmented := True\<rparr>]\<rparr>
                 in observeArray obs (o_elems (heap s4 ! a)) s4
            else walk obs U a s3))"

definition addVm :: "oid \<Rightarrow> vmid \<Rightarrow> 'u state \<Rightarrow> 'u state" where
  "addVm ob v s =
     s\<lparr>observers := (observers s)(ob := (observers s ob)\<lparr>ob_vms := ob_vms (observers s ob) @ [v]\<rparr>)\<rparr>"

text \<open>
  \<open>observe(value, vm)\<close>. The first argument bounds the depth of the nested calls
  \<open>observe\<close> \<open>\<rightarrow>\<close> \<open>new Observer\<close> \<open>\<rightarrow>\<close> \<open>observe\<close>; \<open>None\<close>: the bound was reached. The result
  \<open>Some (None, s)\<close> is the return of \<open>undefined\<close>.
\<close>

definition convertible :: "'u state \<Rightarrow> addr \<Rightarrow> bool" where
  "convertible s a =
     (shouldConvert s \<and> (o_kind (heap s ! a) = ArrayObj \<or> o_kind (heap s ! a) = PlainObj) \<and>
      o_extensible (heap s ! a) \<and> \<not> o_isVue (heap s ! a))"

fun observe ::
  "nat \<Rightarrow> 'u env \<Rightarrow> val \<Rightarrow> vmid option \<Rightarrow> 'u state \<Rightarrow> (oid option \<times> 'u state) option" where
  "observe 0 U value vm s = None"
| "observe (Suc n) U value vm s =
     (case value of
        Ref a \<Rightarrow>
          (if a < length (heap s) then
             (case (case o_ob (heap s ! a) of
                      Some ob \<Rightarrow> Some (Some ob, s)
                    | None \<Rightarrow>
                        if convertible s a
                        then map_option (\<lambda>(ob, t). (Some ob, t))
                               (new_Observer (\<lambda>v t. observe n U v None t) U a s)
                        else Some (None, s)) of
                None \<Rightarrow> None
              | Some (r, s1) \<Rightarrow>
                  Some (r, case r of
                             Some ob \<Rightarrow> (case vm of Some v \<Rightarrow> addVm ob v s1 | None \<Rightarrow> s1)
                           | None \<Rightarrow> s1))
           else Some (None, s))
      | _ \<Rightarrow> Some (None, s))"

text \<open>
  \<open>reactiveSetter\<close>, the \<open>set\<close> that \<open>defineReactive\<close> installs. \<open>upd\<close> is the \<open>update\<close> of the
  subscribers that \<open>dep.notify()\<close> calls.
\<close>

definition reactiveSetter ::
  "(val \<Rightarrow> 'u state \<Rightarrow> (oid option \<times> 'u state) option) \<Rightarrow> 'u env \<Rightarrow>
   (wid \<Rightarrow> 'u state \<Rightarrow> 'u state) \<Rightarrow> cid \<Rightarrow> val \<Rightarrow> 'u state \<Rightarrow> 'u state option" where
  "reactiveSetter obs U upd c newVal s =
     (let value = current_value U c s in
      if strict_eq newVal value then Some s
      else
        let s1 = (case c_setter (closures s c) of
                    Some st \<Rightarrow> e_call_setter U st newVal s
                  | None \<Rightarrow> s\<lparr>closures := (closures s)(c := (closures s c)\<lparr>c_val := newVal\<rparr>)\<rparr>)
        in case obs newVal s1 of
             None \<Rightarrow> None
           | Some (childOb, s2) \<Rightarrow>
               let s3 = s2\<lparr>closures := (closures s2)(c := (closures s2 c)\<lparr>c_childOb := childOb\<rparr>)\<rparr>
               in Some (notify upd (c_dep (closures s3 c)) s3))"




section \<open>Invariants, observers of calls, and sample states\<close>

text \<open>
  What the two dependency buffers of a watcher mean while a pass records
  (\<open>recording_inv\<close>) and between passes (\<open>idle_inv\<close>): the watcher stands once in
  the subscriber list of every Dep of either buffer and in no other list, and each
  list of Deps agrees with its set of ids. A watcher that was just constructed and is
  in no list satisfies \<open>idle_inv\<close>.
\<close>

definition recording_inv :: "'u state \<Rightarrow> wid \<Rightarrow> bool" where
  "recording_inv s w =
     (distinct (w_newDeps (watchers s w)) \<and>
      set (w_newDeps (watchers s w)) = w_newDepIds (watchers s w) \<and>
      distinct (w_deps (watchers s w)) \<and>
      set (w_deps (watchers s w)) = w_depIds (watchers s w) \<and>
      (\<forall>d. count_list (subs s d) w =
            (if d \<in> w_depIds (watchers s w) \<union> w_newDepIds (watchers s w) then 1 else 0)))"

definition idle_inv :: "'u state \<Rightarrow> wid \<Rightarrow> bool" where
  "idle_inv s w =
     (recording_inv s w \<and> w_newDeps (watchers s w) = [] \<and> w_newDepIds (watchers s w) = {})"

text \<open>
  \<open>between_passes s w\<close>: what holds of a watcher between two passes whether or not it
  was torn down. Both scratch buffers are empty, the list of Deps agrees with the set
  of ids, and the watcher stands at most once in a subscriber list, and only in lists
  of Deps it holds. \<open>idle_inv\<close> says in addition that it stands in the list of every
  Dep it holds, which \<open>teardown\<close> ends. \<open>recording_from P\<close> is what holds during a pass
  that began with the watcher in the lists of the Deps \<open>P\<close>.
\<close>

definition between_passes :: "'u state \<Rightarrow> wid \<Rightarrow> bool" where
  "between_passes s w =
     (w_newDeps (watchers s w) = [] \<and> w_newDepIds (watchers s w) = {} \<and>
      distinct (w_deps (watchers s w)) \<and>
      set (w_deps (watchers s w)) = w_depIds (watchers s w) \<and>
      (\<forall>d. count_list (subs s d) w \<le> 1) \<and>
      (\<forall>d. w \<in> set (subs s d) \<longrightarrow> d \<in> w_depIds (watchers s w)))"

definition recording_from :: "did set \<Rightarrow> 'u state \<Rightarrow> wid \<Rightarrow> bool" where
  "recording_from P s w =
     (distinct (w_newDeps (watchers s w)) \<and>
      set (w_newDeps (watchers s w)) = w_newDepIds (watchers s w) \<and>
      distinct (w_deps (watchers s w)) \<and>
      set (w_deps (watchers s w)) = w_depIds (watchers s w) \<and>
      P \<subseteq> w_depIds (watchers s w) \<and>
      (\<forall>d. count_list (subs s d) w =
            (if d \<in> P \<or> (d \<in> w_newDepIds (watchers s w) \<and> d \<notin> w_depIds (watchers s w))
             then 1 else 0)))"

text \<open>
  \<open>bookkeeping_only s t\<close>: \<open>t\<close> differs from \<open>s\<close> at most in the subscriber lists, in
  \<open>Dep.target\<close> and in the dependency buffers of the watchers.
\<close>

definition same_but_tracking :: "'u state \<Rightarrow> 'u state \<Rightarrow> bool" where
  "same_but_tracking s t =
     (dep_uid t = dep_uid s \<and> watcher_uid t = watcher_uid s \<and> vms t = vms s \<and>
      queue t = queue s \<and> userQueue t = userQueue s \<and>
      has t = has s \<and> circular t = circular s \<and> waiting t = waiting s \<and>
      scheduled t = scheduled s \<and> warnings t = warnings s \<and> async t = async s \<and>
      shouldConvert t = shouldConvert s \<and> heap t = heap s \<and> closures t = closures s \<and>
      closure_uid t = closure_uid s \<and> observers t = observers s \<and>
      observer_uid t = observer_uid s \<and> user t = user s)"

definition strip :: "watcher \<Rightarrow> watcher" where
  "strip W = W\<lparr>w_deps := [], w_newDeps := [], w_depIds := {}, w_newDepIds := {}\<rparr>"

definition bookkeeping_only :: "'u state \<Rightarrow> 'u state \<Rightarrow> bool" where
  "bookkeeping_only s t =
     (same_but_tracking s t \<and> (\<forall>x. strip (watchers t x) = strip (watchers s x)))"

text \<open>Every Dep on which one call of \<open>get\<close> calls \<open>depend()\<close>, in order.\<close>

definition pass_reads :: "'u env \<Rightarrow> wid \<Rightarrow> 'u state \<Rightarrow> did list" where
  "pass_reads U w s =
     (let s1 = beforeGet w s;
          (reads, res) = e_getter U w s1;
          s2 = fold track reads s1;
          value = (case res of None \<Rightarrow> Undefined | Some v \<Rightarrow> v)
      in reads @ (if w_deep (watchers s2 w) then e_traverse U value s2 else []))"

text \<open>
  A subscriber under observation: \<open>spy upd\<close> does what \<open>upd\<close> does and then writes the
  subscriber's id at the end of a log kept in the application's own data.
\<close>

definition spy ::
  "(wid \<Rightarrow> (wid list \<times> 'v) state \<Rightarrow> (wid list \<times> 'v) state) \<Rightarrow>
   wid \<Rightarrow> (wid list \<times> 'v) state \<Rightarrow> (wid list \<times> 'v) state" where
  "spy upd x s = (let t = upd x s in t\<lparr>user := (fst (user t) @ [x], snd (user t))\<rparr>)"

definition blank_watcher :: watcher where
  "blank_watcher =
     \<lparr>w_vm = Some 0, w_active = True, w_lazy = False, w_dirty = False, w_sync = False,
      w_user = False, w_deep = False, w_queued = False, w_shallow = False, w_deps = [],
      w_newDeps = [], w_depIds = {}, w_newDepIds = {}, w_value = Undefined\<rparr>"

definition blank_vm :: vm where
  "blank_vm = \<lparr>vm_isBeingDestroyed = False, vm_vForRemoving = False, vm_watchers = []\<rparr>"

definition blank_closure :: closure where
  "blank_closure =
     \<lparr>c_obj = 0, c_key = [], c_dep = 0, c_val = Undefined, c_childOb = None,
      c_getter = None, c_setter = None\<rparr>"

definition blank_observer :: observer where
  "blank_observer = \<lparr>ob_value = 0, ob_dep = 0, ob_vms = []\<rparr>"

definition empty_state :: "'u \<Rightarrow> 'u state" where
  "empty_state u =
     \<lparr>subs = (\<lambda>_. []), dep_uid = 0, target = None, watchers = (\<lambda>_. blank_watcher),
      watcher_uid = 0, vms = (\<lambda>_. blank_vm), queue = [], userQueue = [], has = (\<lambda>_. None),
      circular = (\<lambda>_. 0), waiting = False, scheduled = 0, warnings = [], async = True,
      shouldConvert = True, heap = [], closures = (\<lambda>_. blank_closure), closure_uid = 0,
      observers = (\<lambda>_. blank_observer), observer_uid = 0, user = u\<rparr>"

text \<open>A subscriber whose \<open>update\<close> tears watchers down while \<open>notify\<close> is iterating.\<close>

definition teardown_upd :: "wid \<Rightarrow> 'u state \<Rightarrow> 'u state" where
  "teardown_upd x t = (case teardown x t of Inl e \<Rightarrow> t | Inr t' \<Rightarrow> t')"

definition teardown_both :: "wid \<Rightarrow> (wid list \<times> unit) state \<Rightarrow> (wid list \<times> unit) state" where
  "teardown_both x t = teardown_upd 2 (teardown_upd 1 t)"

definition two_subscribers :: "(wid list \<times> unit) state" where
  "two_subscribers = (empty_state ([], ()))
     \<lparr>subs := (\<lambda>_. [])(0 := [1, 2]),
      watchers := (\<lambda>_. blank_watcher)
        (1 := blank_watcher\<lparr>w_deps := [0], w_depIds := {0}\<rparr>,
         2 := blank_watcher\<lparr>w_deps := [0], w_depIds := {0}\<rparr>)\<rparr>"

text \<open>
  Watcher 1 took Deps 0 and 1 on its last pass (\<open>flag ? a : b\<close> with the flag on Dep 1
  and \<open>a\<close> on Dep 0); on this pass its getter reads Dep 1, Dep 2 and Dep 1 again.
\<close>

definition branch_env :: "(wid list \<times> unit) env" where
  "branch_env =
     \<lparr>e_getter = (\<lambda>w s. ([1, 2, 1], Some (Num 5))), e_cb = (\<lambda>w v old s. s),
      e_traverse = (\<lambda>v s. []), e_preProcess = (\<lambda>w. None), e_filters = (\<lambda>w. None),
      e_postProcess = (\<lambda>w. None), e_call_getter = (\<lambda>a s. Undefined),
      e_call_setter = (\<lambda>a v s. s), e_dev = False\<rparr>"

definition branch_state :: "(wid list \<times> unit) state" where
  "branch_state = (empty_state ([], ()))
     \<lparr>subs := (\<lambda>_. [])(0 := [1], 1 := [1, 2]),
      watchers := (\<lambda>_. blank_watcher)
        (1 := blank_watcher\<lparr>w_deps := [0, 1], w_depIds := {0, 1}\<rparr>,
         2 := blank_watcher\<lparr>w_deps := [1], w_depIds := {1}\<rparr>),
      dep_uid := 3, watcher_uid := 2,
      vms := (\<lambda>_. blank_vm)(0 := blank_vm\<lparr>vm_watchers := [1, 2]\<rparr>)\<rparr>"

subsection \<open>The parts of run, and a flush without reentry\<close>

text \<open>
  \<open>changed value W\<close> is the test of \<open>run\<close> that decides whether the callback is called;
  \<open>set_value\<close> and \<open>clear_flags\<close> are its two assignments to the watcher. \<open>step\<close> is one
  iteration of the loop of \<open>runBatcherQueue\<close> in the bundle as built: clear the
  \<open>has\<close> entry, run the watcher.
\<close>

definition changed :: "val \<Rightarrow> watcher \<Rightarrow> bool" where
  "changed value W =
     (\<not> strict_eq value (w_value W) \<or> ((isObject value \<or> w_deep W) \<and> \<not> w_shallow W))"

definition clear_flags :: "wid \<Rightarrow> 'u state \<Rightarrow> 'u state" where
  "clear_flags w s =
     s\<lparr>watchers := (watchers s)(w := (watchers s w)\<lparr>w_queued := False, w_shallow := False\<rparr>)\<rparr>"

definition set_value :: "wid \<Rightarrow> val \<Rightarrow> 'u state \<Rightarrow> 'u state" where
  "set_value w v s = s\<lparr>watchers := (watchers s)(w := (watchers s w)\<lparr>w_value := v\<rparr>)\<rparr>"

definition step :: "'u env \<Rightarrow> wid \<Rightarrow> 'u state \<Rightarrow> 'u state" where
  "step U w t = run U w (t\<lparr>has := (has t)(w := None)\<rparr>)"

text \<open>
  Callbacks that push nothing (\<open>quiet\<close>); the callback that only writes its call
  \<open>(watcher, new value, old value)\<close> at the end of a log (\<open>log_cb\<close>).
\<close>

definition quiet :: "'u env \<Rightarrow> bool" where
  "quiet U = (\<forall>x v old t. queue (e_cb U x v old t) = queue t \<and>
                          userQueue (e_cb U x v old t) = userQueue t)"

definition log_cb :: "wid \<Rightarrow> val \<Rightarrow> val \<Rightarrow> (wid \<times> val \<times> val) list state \<Rightarrow> (wid \<times> val \<times> val) list state" where
  "log_cb w v old t = t\<lparr>user := user t @ [(w, v, old)]\<rparr>"



definition pushable :: "wid \<Rightarrow> bool \<Rightarrow> 'u state \<Rightarrow> bool" where
  "pushable w uq t =
     (w_active (watchers t w) \<and> \<not> w_lazy (watchers t w) \<and> \<not> w_sync (watchers t w) \<and>
      async t \<and> w_user (watchers t w) = uq)"


text \<open>
  Sample programs. \<open>const_env r\<close>: every getter reads Dep 0 and returns \<open>r\<close> (throws
  when \<open>r\<close> is \<open>None\<close>), every callback logs its call. \<open>watching_state v\<close>: watcher 2
  holds the value \<open>v\<close> and is subscribed to Dep 0; nothing is queued.
  \<open>runaway_env dev\<close>: the getter evaluates to NaN, the callback counts its calls and
  triggers its own watcher (\<open>update\<close> consults the environment only for a synchronous
  watcher); \<open>runaway_state\<close> has watcher 2 queued.
\<close>

definition const_env :: "val option \<Rightarrow> (wid \<times> val \<times> val) list env" where
  "const_env r =
     \<lparr>e_getter = (\<lambda>w s. ([0], r)), e_cb = log_cb,
      e_traverse = (\<lambda>v s. []), e_preProcess = (\<lambda>w. None), e_filters = (\<lambda>w. None),
      e_postProcess = (\<lambda>w. None), e_call_getter = (\<lambda>a s. Undefined),
      e_call_setter = (\<lambda>a v s. s), e_dev = False\<rparr>"

definition watching_state :: "val \<Rightarrow> (wid \<times> val \<times> val) list state" where
  "watching_state v = (empty_state [])
     \<lparr>subs := (\<lambda>_. [])(0 := [2]),
      watchers := (\<lambda>_. blank_watcher)
        (2 := blank_watcher\<lparr>w_deps := [0], w_depIds := {0}, w_value := v\<rparr>)\<rparr>"




text \<open>
  A pass over a queue onto which nothing is pushed while it runs (\<open>steady\<close>): every
  watcher of the queue in order, then \<open>queue.length = 0\<close> (\<open>queue_pass\<close>). A round is
  the pass over the first queue followed by the pass over the user queue
  (\<open>flush_round\<close>). \<open>steady_rounds U k L s\<close>: the first \<open>k\<close> rounds from \<open>s\<close> are
  steady, their queues are shorter than \<open>L\<close>, and the first queue is empty after
  round \<open>k\<close> and after no round before it.
\<close>

definition queue_pass :: "'u env \<Rightarrow> bool \<Rightarrow> 'u state \<Rightarrow> 'u state" where
  "queue_pass U uq s = clear_queue uq (fold (step U) (the_queue uq s) s)"

definition flush_round :: "'u env \<Rightarrow> 'u state \<Rightarrow> 'u state" where
  "flush_round U s = queue_pass U True (queue_pass U False s)"

definition steady :: "'u env \<Rightarrow> bool \<Rightarrow> 'u state \<Rightarrow> bool" where
  "steady U uq s =
     (\<forall>j < length (the_queue uq s).
        the_queue uq (fold (step U) (take (Suc j) (the_queue uq s)) s) = the_queue uq s)"

definition steady_rounds :: "'u env \<Rightarrow> nat \<Rightarrow> nat \<Rightarrow> 'u state \<Rightarrow> bool" where
  "steady_rounds U k L s =
     (\<forall>j < k. steady U False ((flush_round U ^^ j) s) \<and>
              steady U True (queue_pass U False ((flush_round U ^^ j) s)) \<and>
              length (queue ((flush_round U ^^ j) s)) < L \<and>
              length (userQueue (queue_pass U False ((flush_round U ^^ j) s))) < L \<and>
              (queue ((flush_round U ^^ Suc j) s) = []) = (Suc j = k))"

text \<open>
  \<open>logged cb\<close> is the callback \<open>cb\<close> under observation: the call \<open>(watcher, new value,
  old value)\<close> is written at the end of a log in the application's own data, then \<open>cb\<close>
  runs. \<open>calls_of w\<close> reads the calls of one watcher from the log. \<open>turn_of U w s\<close> is
  the state in which a flush reaches the watcher \<open>w\<close> that \<open>update\<close> has put at the end
  of its queue in \<open>s\<close>.
\<close>

definition logged ::
  "(wid \<Rightarrow> val \<Rightarrow> val \<Rightarrow> ((wid \<times> val \<times> val) list \<times> 'v) state \<Rightarrow> ((wid \<times> val \<times> val) list \<times> 'v) state) \<Rightarrow>
   wid \<Rightarrow> val \<Rightarrow> val \<Rightarrow> ((wid \<times> val \<times> val) list \<times> 'v) state \<Rightarrow> ((wid \<times> val \<times> val) list \<times> 'v) state" where
  "logged cb w v old t = cb w v old (t\<lparr>user := (fst (user t) @ [(w, v, old)], snd (user t))\<rparr>)"

definition calls_of :: "wid \<Rightarrow> ((wid \<times> val \<times> val) list \<times> 'v) state \<Rightarrow> (wid \<times> val \<times> val) list" where
  "calls_of w t = filter (\<lambda>e. fst e = w) (fst (user t))"

definition turn_of :: "'u env \<Rightarrow> wid \<Rightarrow> 'u state \<Rightarrow> 'u state" where
  "turn_of U w s =
     (if w_user (watchers s w)
      then fold (step U) (userQueue s) (queue_pass U False (update U w False s))
      else fold (step U) (queue s) (update U w False s))"

text \<open>
  Sample programs for the flush. \<open>silent_env r\<close>: every getter reads Dep 0 and
  evaluates to \<open>r\<close>, the callbacks do nothing but are logged. \<open>relay_env\<close>: the getters
  evaluate to 2 and the callback of watcher 3 triggers watcher 2. \<open>relay_state\<close>:
  watcher 2 and the user watcher 3 hold 1 and are subscribed to Dep 0; nothing is
  queued.
\<close>

definition silent_env :: "val option \<Rightarrow> ((wid \<times> val \<times> val) list \<times> unit) env" where
  "silent_env r =
     \<lparr>e_getter = (\<lambda>w s. ([0], r)), e_cb = logged (\<lambda>w v old t. t),
      e_traverse = (\<lambda>v s. []), e_preProcess = (\<lambda>w. None), e_filters = (\<lambda>w. None),
      e_postProcess = (\<lambda>w. None), e_call_getter = (\<lambda>a s. Undefined),
      e_call_setter = (\<lambda>a v s. s), e_dev = False\<rparr>"

definition relay_cb ::
  "wid \<Rightarrow> val \<Rightarrow> val \<Rightarrow> ((wid \<times> val \<times> val) list \<times> unit) state \<Rightarrow> ((wid \<times> val \<times> val) list \<times> unit) state" where
  "relay_cb x v old t = (if x = 3 then update (silent_env None) 2 False t else t)"

definition relay_env :: "((wid \<times> val \<times> val) list \<times> unit) env" where
  "relay_env =
     \<lparr>e_getter = (\<lambda>w s. ([0], Some (Num 2))), e_cb = logged relay_cb,
      e_traverse = (\<lambda>v s. []), e_preProcess = (\<lambda>w. None), e_filters = (\<lambda>w. None),
      e_postProcess = (\<lambda>w. None), e_call_getter = (\<lambda>a s. Undefined),
      e_call_setter = (\<lambda>a v s. s), e_dev = False\<rparr>"

definition relay_state :: "((wid \<times> val \<times> val) list \<times> unit) state" where
  "relay_state = (empty_state ([], ()))
     \<lparr>subs := (\<lambda>_. [])(0 := [2, 3]),
      watchers := (\<lambda>_. blank_watcher)
        (2 := blank_watcher\<lparr>w_deps := [0], w_depIds := {0}, w_value := Num 1\<rparr>,
         3 := blank_watcher\<lparr>w_deps := [0], w_depIds := {0}, w_value := Num 1, w_user := True\<rparr>),
      dep_uid := 1, watcher_uid := 3,
      vms := (\<lambda>_. blank_vm)(0 := blank_vm\<lparr>vm_watchers := [2, 3]\<rparr>)\<rparr>"

subsection \<open>The parts of the observer, and what observing leaves alone\<close>

text \<open>
  \<open>store_value\<close> and \<open>set_childOb\<close> are the two assignments of \<open>reactiveSetter\<close>;
  \<open>blocked\<close> is the early return of \<open>defineReactive\<close> and \<open>install\<close> its last step (the
  captured variables and the accessor pair); \<open>attach\<close> is the start of \<open>new Observer\<close>
  up to the \<open>__ob__\<close> back-reference, \<open>augment\<close> the prototype swap of an array.
\<close>

definition store_value :: "'u env \<Rightarrow> cid \<Rightarrow> val \<Rightarrow> 'u state \<Rightarrow> 'u state" where
  "store_value U c newVal s =
     (case c_setter (closures s c) of
        Some st \<Rightarrow> e_call_setter U st newVal s
      | None \<Rightarrow> s\<lparr>closures := (closures s)(c := (closures s c)\<lparr>c_val := newVal\<rparr>)\<rparr>)"

definition set_childOb :: "cid \<Rightarrow> oid option \<Rightarrow> 'u state \<Rightarrow> 'u state" where
  "set_childOb c childOb s =
     s\<lparr>closures := (closures s)(c := (closures s c)\<lparr>c_childOb := childOb\<rparr>)\<rparr>"

definition blocked :: "propdesc option \<Rightarrow> bool" where
  "blocked p = (case p of Some pd \<Rightarrow> \<not> pd_configurable pd | None \<Rightarrow> False)"

definition install ::
  "addr \<Rightarrow> string \<Rightarrow> did \<Rightarrow> val \<Rightarrow> oid option \<Rightarrow> propdesc option \<Rightarrow> 'u state \<Rightarrow> 'u state" where
  "install a k d v childOb property s2 =
     defineProperty a k
       \<lparr>pd_enumerable = True, pd_configurable = True,
        pd_slot = AccessorSlot (Some (ReactiveAcc (closure_uid s2)))
                    (Some (ReactiveAcc (closure_uid s2)))\<rparr>
       (s2\<lparr>closures := (closures s2)
               (closure_uid s2 := \<lparr>c_obj = a, c_key = k, c_dep = d, c_val = v,
                    c_childOb = childOb, c_getter = slot_getter property,
                    c_setter = slot_setter property\<rparr>),
             closure_uid := Suc (closure_uid s2)\<rparr>)"

definition attach :: "addr \<Rightarrow> 'u state \<Rightarrow> 'u state" where
  "attach a s =
     (let s1 = snd (new_Dep s);
          s2 = s1\<lparr>observers := (observers s1)
                    (observer_uid s1 := \<lparr>ob_value = a, ob_dep = fst (new_Dep s), ob_vms = []\<rparr>),
                  observer_uid := Suc (observer_uid s1)\<rparr>
      in s2\<lparr>heap := (heap s2)[a := (heap s2 ! a)\<lparr>o_ob := Some (observer_uid s1)\<rparr>]\<rparr>)"

definition augment :: "addr \<Rightarrow> 'u state \<Rightarrow> 'u state" where
  "augment a s = s\<lparr>heap := (heap s)[a := (heap s ! a)\<lparr>o_augmented := True\<rparr>]\<rparr>"

text \<open>
  \<open>unobserved s\<close> counts the objects without an Observer. \<open>observed_more s t\<close>: from
  \<open>s\<close> to \<open>t\<close> the heap keeps its objects, their kind, extensibility, marker and
  elements, and every Observer back-reference it had; no object has lost one.
  \<open>sound_obs\<close> and \<open>total_below\<close> say of a function used as \<open>observe\<close> that its
  results are of that kind, and that it returns on every state with fewer than \<open>n\<close>
  objects still unobserved.
\<close>

definition unobserved :: "'u state \<Rightarrow> nat" where
  "unobserved s = length (filter (\<lambda>obj. o_ob obj = None) (heap s))"

definition observed_more :: "'u state \<Rightarrow> 'u state \<Rightarrow> bool" where
  "observed_more s t =
     (length (heap t) = length (heap s) \<and> shouldConvert t = shouldConvert s \<and>
      (\<forall>b. b < length (heap s) \<longrightarrow>
           o_kind (heap t ! b) = o_kind (heap s ! b) \<and>
           o_extensible (heap t ! b) = o_extensible (heap s ! b) \<and>
           o_isVue (heap t ! b) = o_isVue (heap s ! b) \<and>
           o_elems (heap t ! b) = o_elems (heap s ! b) \<and>
           (\<forall>ob. o_ob (heap s ! b) = Some ob \<longrightarrow> o_ob (heap t ! b) = Some ob)) \<and>
      unobserved t \<le> unobserved s)"

definition sound_obs :: "(val \<Rightarrow> 'u state \<Rightarrow> (oid option \<times> 'u state) option) \<Rightarrow> bool" where
  "sound_obs obs = (\<forall>v s r t. obs v s = Some (r, t) \<longrightarrow> observed_more s t)"

definition total_below :: "(val \<Rightarrow> 'u state \<Rightarrow> (oid option \<times> 'u state) option) \<Rightarrow> nat \<Rightarrow> bool" where
  "total_below obs n = (\<forall>v s. unobserved s < n \<longrightarrow> (\<exists>r t. obs v s = Some (r, t)))"

text \<open>
  \<open>observers_kept s t\<close>: every Observer of \<open>s\<close> is in \<open>t\<close> with the Dep and the value it
  had; \<open>keeps_obs\<close> says so of the results of a function used as \<open>observe\<close>.
\<close>

definition observers_kept :: "'u state \<Rightarrow> 'u state \<Rightarrow> bool" where
  "observers_kept s t =
     (observer_uid s \<le> observer_uid t \<and>
      (\<forall>ob. ob < observer_uid s \<longrightarrow>
            ob_dep (observers t ob) = ob_dep (observers s ob) \<and>
            ob_value (observers t ob) = ob_value (observers s ob)))"

definition keeps_obs :: "(val \<Rightarrow> 'u state \<Rightarrow> (oid option \<times> 'u state) option) \<Rightarrow> bool" where
  "keeps_obs obs = (\<forall>v s r t. obs v s = Some (r, t) \<longrightarrow> observers_kept s t)"

text \<open>\<open>obs_le obs obs'\<close>: wherever \<open>obs\<close> returns, \<open>obs'\<close> returns the same.\<close>

definition obs_le ::
  "(val \<Rightarrow> 'u state \<Rightarrow> (oid option \<times> 'u state) option) \<Rightarrow>
   (val \<Rightarrow> 'u state \<Rightarrow> (oid option \<times> 'u state) option) \<Rightarrow> bool" where
  "obs_le obs obs' = (\<forall>v s x. obs v s = Some x \<longrightarrow> obs' v s = Some x)"

text \<open>
  Sample heaps. \<open>closure_state v\<close>: one reactive property (closure 0, Dep 3, value \<open>v\<close>)
  with watcher 2 subscribed. \<open>frozen_observed\<close>: an object that was observed and then
  made non-extensible. \<open>nested_state\<close>: an object whose property \<open>list\<close> is an array
  that holds the object itself. \<open>array_state\<close>: an observed array (Observer 0, Dep 0,
  watcher 2 subscribed) and a plain object not yet observed; \<open>native_push\<close> is what
  \<open>Array.prototype.push\<close> does to it, and \<open>pushed_state\<close> the state it leaves.
\<close>

definition closure_state :: "val \<Rightarrow> (wid list \<times> unit) state" where
  "closure_state v = (empty_state ([], ()))
     \<lparr>subs := (\<lambda>_. [])(3 := [2]), dep_uid := 4,
      closures := (\<lambda>_. blank_closure)(0 := blank_closure\<lparr>c_dep := 3, c_val := v\<rparr>),
      closure_uid := 1\<rparr>"

definition plain_obj :: jsobj where
  "plain_obj =
     \<lparr>o_kind = PlainObj, o_extensible = True, o_isVue = False, o_ob = None,
      o_augmented = False, o_elems = [], o_props = []\<rparr>"

definition data_prop :: "val \<Rightarrow> propdesc" where
  "data_prop v = \<lparr>pd_enumerable = True, pd_configurable = True, pd_slot = DataSlot v\<rparr>"

definition frozen_observed :: "(wid list \<times> unit) state" where
  "frozen_observed = (empty_state ([], ()))
     \<lparr>dep_uid := 1, heap := [plain_obj\<lparr>o_extensible := False, o_ob := Some 0\<rparr>],
      observers := (\<lambda>_. blank_observer)(0 := \<lparr>ob_value = 0, ob_dep = 0, ob_vms = []\<rparr>),
      observer_uid := 1\<rparr>"

definition nested_state :: "(wid list \<times> unit) state" where
  "nested_state = (empty_state ([], ()))
     \<lparr>heap := [plain_obj\<lparr>o_props := [(''a'', data_prop (Num 1)), (''list'', data_prop (Ref 1))]\<rparr>,
               plain_obj\<lparr>o_kind := ArrayObj, o_elems := [Num 7, Ref 0]\<rparr>]\<rparr>"




section \<open>Lists: what $remove removes\<close>

lemma toArray_id [simp]: "toArray xs = xs"
  by (simp add: toArray_def map_nth)

lemma indexOf_from_append:
  "n \<le> length xs \<Longrightarrow> indexOf_from n (xs @ ys) x = indexOf_from n xs x"
  by (induction n) (auto simp: nth_append)

lemma indexOf_from_less: "indexOf_from n xs x = Some i \<Longrightarrow> i < n"
  by (induction n) (auto split: if_splits)

lemma remove_item_snoc:
  "remove_item (xs @ [y]) x = (if y = x then xs else remove_item xs x @ [y])"
proof (cases "y = x")
  case True
  then show ?thesis by (simp add: remove_item_def indexOf_def)
next
  case False
  have "indexOf (xs @ [y]) x = indexOf xs x"
    using False by (simp add: indexOf_def indexOf_from_append)
  then show ?thesis using False
    by (auto simp: remove_item_def indexOf_def split: option.splits dest!: indexOf_from_less)
qed

lemma remove_item_rev: "remove_item xs x = rev (remove1 x (rev xs))"
proof (induction xs rule: rev_induct)
  case Nil
  then show ?case by (simp add: remove_item_def)
next
  case (snoc y xs)
  then show ?case by (simp add: remove_item_snoc)
qed

lemma count_remove_item:
  "count_list (remove_item xs x) y = (if y = x then count_list xs x - 1 else count_list xs y)"
proof (induction xs rule: rev_induct)
  case Nil
  then show ?case by (simp add: remove_item_def)
next
  case (snoc z xs)
  then show ?case by (auto simp: remove_item_snoc)
qed

lemma count_list_mem: "e \<in> set xs \<Longrightarrow> count_list xs e \<ge> 1"
  by (induction xs) auto

lemma count_le1_mem: "count_list xs x = (if P then 1 else 0) \<Longrightarrow> (x \<in> set xs) = P"
  by (metis count_list_0_iff zero_neq_one)

section \<open>Dependency tracking: addDep, afterGet, get\<close>

lemma addDep_inv:
  assumes "recording_inv s w"
  shows "recording_inv (addDep w d s) w"
    and "w_newDepIds (watchers (addDep w d s) w) = insert d (w_newDepIds (watchers s w))"
    and "w_depIds (watchers (addDep w d s) w) = w_depIds (watchers s w)"
    and "w_deps (watchers (addDep w d s) w) = w_deps (watchers s w)"
    and "target (addDep w d s) = target s"
  using assms
  by (auto simp: recording_inv_def addDep_def addSub_def Let_def)

lemma fold_track_inv:
  assumes "recording_inv s w" "target s = Some w"
  shows "recording_inv (fold track ds s) w \<and> target (fold track ds s) = Some w \<and>
         w_newDepIds (watchers (fold track ds s) w) = w_newDepIds (watchers s w) \<union> set ds \<and>
         w_depIds (watchers (fold track ds s) w) = w_depIds (watchers s w) \<and>
         w_deps (watchers (fold track ds s) w) = w_deps (watchers s w)"
  using assms
proof (induction ds arbitrary: s)
  case Nil
  then show ?case by simp
next
  case (Cons d ds)
  have t: "track d s = addDep w d s" using Cons.prems by (simp add: track_def)
  have "recording_inv (addDep w d s) w" "target (addDep w d s) = Some w"
    using Cons.prems addDep_inv[of s w d] by simp_all
  from Cons.IH[OF this] show ?case
    using addDep_inv[OF Cons.prems(1), of d] by (simp add: t)
qed

lemma removeSub_simps:
  "watchers (removeSub d w s) = watchers s"
  "target (removeSub d w s) = target s"
  "subs (removeSub d w s) e = (if e = d then remove_item (subs s d) w else subs s e)"
  by (simp_all add: removeSub_def)

lemma fold_removeSub_watchers:
  "watchers (fold (\<lambda>d t. if d \<notin> N then removeSub d w t else t) ds s) = watchers s"
  by (induction ds arbitrary: s) (simp_all add: removeSub_simps)

lemma fold_removeSub_target:
  "target (fold (\<lambda>d t. if d \<notin> N then removeSub d w t else t) ds s) = target s"
  by (induction ds arbitrary: s) (simp_all add: removeSub_simps)

lemma fold_removeSub_count:
  "count_list (subs (fold (\<lambda>d t. if d \<notin> N then removeSub d w t else t) ds s) e) w' =
     (if w' = w \<and> e \<notin> N then count_list (subs s e) w - count_list ds e
      else count_list (subs s e) w')"
proof (induction ds arbitrary: s)
  case Nil
  then show ?case by simp
next
  case (Cons d ds)
  show ?case
    by (simp only: fold_simps Cons.IH o_apply)
       (simp add: removeSub_simps count_remove_item)
qed

lemma afterGet_inv:
  assumes "recording_inv s w"
  shows "idle_inv (afterGet w s) w"
    and "w_depIds (watchers (afterGet w s) w) = w_newDepIds (watchers s w)"
    and "w_deps (watchers (afterGet w s) w) = w_newDeps (watchers s w)"
    and "target (afterGet w s) = None"
    and "count_list (subs (afterGet w s) e) w = (if e \<in> w_newDepIds (watchers s w) then 1 else 0)"
proof -
  let ?N = "w_newDepIds (watchers s w)"
  let ?f = "\<lambda>d t. if d \<notin> ?N then removeSub d w t else t"
  let ?s2 = "fold ?f (rev (w_deps (watchers s w))) (s\<lparr>target := None\<rparr>)"
  have W: "watchers ?s2 = watchers s" by (simp add: fold_removeSub_watchers)
  have T: "target ?s2 = None" by (simp add: fold_removeSub_target)
  have C: "count_list (subs ?s2 e) w = (if e \<in> ?N then 1 else 0)" for e
  proof -
    have "count_list (subs ?s2 e) w =
        (if e \<notin> ?N then count_list (subs s e) w - count_list (w_deps (watchers s w)) e
         else count_list (subs s e) w)"
      by (simp add: fold_removeSub_count count_list_rev)
    moreover have "e \<in> set (w_deps (watchers s w)) \<Longrightarrow> count_list (w_deps (watchers s w)) e \<ge> 1"
      by (rule count_list_mem)
    moreover have "count_list (subs s e) w = (if e \<in> w_depIds (watchers s w) \<union> ?N then 1 else 0)"
      and "set (w_deps (watchers s w)) = w_depIds (watchers s w)"
      using assms by (simp_all add: recording_inv_def)
    ultimately show ?thesis
      by (cases "e \<in> ?N"; cases "e \<in> w_depIds (watchers s w)") auto
  qed
  have A: "afterGet w s = ?s2\<lparr>watchers := (watchers ?s2)
              (w := (watchers ?s2 w)\<lparr>w_depIds := w_newDepIds (watchers ?s2 w), w_newDepIds := {},
                       w_deps := w_newDeps (watchers ?s2 w), w_newDeps := []\<rparr>)\<rparr>"
    by (simp add: afterGet_def Let_def)
  have R: "distinct (w_newDeps (watchers s w))" "set (w_newDeps (watchers s w)) = ?N"
    using assms by (simp_all add: recording_inv_def)
  show "idle_inv (afterGet w s) w"
    unfolding idle_inv_def recording_inv_def
    by (simp add: A W R C)
  show "w_depIds (watchers (afterGet w s) w) = ?N" by (simp add: A W)
  show "w_deps (watchers (afterGet w s) w) = w_newDeps (watchers s w)" by (simp add: A W)
  show "target (afterGet w s) = None" by (simp add: A T)
  show "count_list (subs (afterGet w s) e) w = (if e \<in> ?N then 1 else 0)"
    using C by (simp add: A)
qed

lemma get_tracking:
  assumes "idle_inv s w"
  shows "idle_inv (snd (get U w s)) w"
    and "w_depIds (watchers (snd (get U w s)) w) = set (pass_reads U w s)"
    and "target (snd (get U w s)) = None"
    and "count_list (subs (snd (get U w s)) e) w = (if e \<in> set (pass_reads U w s) then 1 else 0)"
proof -
  obtain reads res where g: "e_getter U w (beforeGet w s) = (reads, res)"
    by (cases "e_getter U w (beforeGet w s)")
  let ?s1 = "beforeGet w s"
  let ?s2 = "fold track reads ?s1"
  let ?v = "case res of None \<Rightarrow> Undefined | Some v \<Rightarrow> v"
  let ?tr = "if w_deep (watchers ?s2 w) then e_traverse U ?v ?s2 else []"
  let ?s3 = "fold track ?tr ?s2"
  have e: "snd (get U w s) = afterGet w ?s3"
    by (simp add: get_def g Let_def)
  have pr: "pass_reads U w s = reads @ ?tr"
    by (simp add: pass_reads_def g Let_def)
  have i1: "recording_inv ?s1 w" "target ?s1 = Some w"
    "w_newDepIds (watchers ?s1 w) = {}"
    using assms by (simp_all add: idle_inv_def recording_inv_def beforeGet_def)
  note f2 = fold_track_inv[OF i1(1,2), of reads]
  have i2: "recording_inv ?s2 w" "target ?s2 = Some w" using f2 by simp_all
  note f3 = fold_track_inv[OF i2, of ?tr]
  have n3: "w_newDepIds (watchers ?s3 w) = set (pass_reads U w s)"
    using f2 f3 i1(3) by (simp add: pr)
  have i3: "recording_inv ?s3 w" using f3 by simp
  note a = afterGet_inv[OF i3]
  show "idle_inv (snd (get U w s)) w" using a(1) by (simp add: e)
  show "w_depIds (watchers (snd (get U w s)) w) = set (pass_reads U w s)"
    using a(2) n3 by (simp add: e)
  show "target (snd (get U w s)) = None" using a(4) by (simp add: e)
  show "count_list (subs (snd (get U w s)) e) w = (if e \<in> set (pass_reads U w s) then 1 else 0)"
    using a(5)[of e] n3 by (simp add: e)
qed

lemma idle_deps:
  "idle_inv s w \<Longrightarrow>
   set (w_deps (watchers s w)) = w_depIds (watchers s w) \<and> distinct (w_deps (watchers s w))"
  by (simp add: idle_inv_def recording_inv_def)

section \<open>What a pass leaves alone\<close>

lemma bookkeeping_refl [simp]: "bookkeeping_only s s"
  by (simp add: bookkeeping_only_def same_but_tracking_def)

lemma bookkeeping_trans:
  "bookkeeping_only s t \<Longrightarrow> bookkeeping_only t r \<Longrightarrow> bookkeeping_only s r"
  by (simp add: bookkeeping_only_def same_but_tracking_def)

lemma bookkeeping_addDep: "bookkeeping_only s (addDep w d s)"
  by (simp add: bookkeeping_only_def same_but_tracking_def addDep_def addSub_def Let_def strip_def)

lemma bookkeeping_track: "bookkeeping_only s (track d s)"
  by (simp add: track_def bookkeeping_addDep split: option.splits)

lemma bookkeeping_fold:
  assumes "\<And>d t. bookkeeping_only t (f d t)"
  shows "bookkeeping_only s (fold f ds s)"
proof (induction ds arbitrary: s)
  case Nil
  show ?case by simp
next
  case (Cons d ds)
  show ?case using bookkeeping_trans[OF assms[of s d] Cons.IH[of "f d s"]] by simp
qed

lemma bookkeeping_beforeGet: "bookkeeping_only s (beforeGet w s)"
  by (simp add: bookkeeping_only_def same_but_tracking_def beforeGet_def)

lemma bookkeeping_removeSub: "bookkeeping_only s (removeSub d w s)"
  by (simp add: bookkeeping_only_def same_but_tracking_def removeSub_def)

lemma bookkeeping_afterGet: "bookkeeping_only s (afterGet w s)"
proof -
  let ?N = "w_newDepIds (watchers s w)"
  let ?f = "\<lambda>d t. if d \<notin> ?N then removeSub d w t else t"
  let ?s1 = "s\<lparr>target := None\<rparr>"
  let ?s2 = "fold ?f (rev (w_deps (watchers s w))) ?s1"
  have 1: "bookkeeping_only s ?s1"
    by (simp add: bookkeeping_only_def same_but_tracking_def)
  have 2: "bookkeeping_only ?s1 ?s2"
    by (rule bookkeeping_fold) (simp add: bookkeeping_removeSub)
  have 3: "bookkeeping_only ?s2 (afterGet w s)"
    by (simp add: afterGet_def Let_def bookkeeping_only_def same_but_tracking_def strip_def)
  show ?thesis using bookkeeping_trans[OF bookkeeping_trans[OF 1 2] 3] .
qed

lemma bookkeeping_get: "bookkeeping_only s (snd (get U w s))"
proof -
  obtain reads res where g: "e_getter U w (beforeGet w s) = (reads, res)"
    by (cases "e_getter U w (beforeGet w s)")
  let ?s1 = "beforeGet w s"
  let ?s2 = "fold track reads ?s1"
  let ?v = "case res of None \<Rightarrow> Undefined | Some v \<Rightarrow> v"
  let ?s3 = "if w_deep (watchers ?s2 w) then fold track (e_traverse U ?v ?s2) ?s2 else ?s2"
  have e: "snd (get U w s) = afterGet w ?s3"
    by (simp add: get_def g Let_def)
  have 1: "bookkeeping_only s ?s1" by (rule bookkeeping_beforeGet)
  have 2: "bookkeeping_only ?s1 ?s2" by (rule bookkeeping_fold) (rule bookkeeping_track)
  have 3: "bookkeeping_only ?s2 ?s3"
    by (auto intro: bookkeeping_fold bookkeeping_track)
  have 4: "bookkeeping_only ?s3 (afterGet w ?s3)" by (rule bookkeeping_afterGet)
  show ?thesis
    unfolding e using bookkeeping_trans[OF bookkeeping_trans[OF bookkeeping_trans[OF 1 2] 3] 4] .
qed

section \<open>Observed subscribers\<close>

lemma fold_spy_log:
  assumes "\<And>x t. fst (user (upd x t)) = fst (user t)"
  shows "fst (user (fold (spy upd) xs s)) = fst (user s) @ xs"
  using assms by (induction xs arbitrary: s) (simp_all add: spy_def Let_def)

lemma fold_removeSub_user:
  "user (fold (\<lambda>d t. removeSub d w t) ds s) = user s"
  by (induction ds arbitrary: s) (simp_all add: removeSub_def)

lemma teardown_user: "teardown w s = Inr t \<Longrightarrow> user t = user s"
  by (auto simp: teardown_def Let_def fold_removeSub_user split: if_splits option.splits)

lemma teardown_upd_user: "user (teardown_upd x t) = user t"
  by (auto simp: teardown_upd_def dest: teardown_user split: sum.splits)

section \<open>Watcher and batcher: run, update, the queues\<close>

lemma strip_fields:
  assumes "strip a = strip b"
  shows "w_vm a = w_vm b" "w_active a = w_active b" "w_lazy a = w_lazy b" "w_dirty a = w_dirty b"
    "w_sync a = w_sync b" "w_user a = w_user b" "w_deep a = w_deep b" "w_queued a = w_queued b"
    "w_shallow a = w_shallow b" "w_value a = w_value b"
proof -
  have "w_vm (strip a) = w_vm (strip b)" "w_active (strip a) = w_active (strip b)"
    "w_lazy (strip a) = w_lazy (strip b)" "w_dirty (strip a) = w_dirty (strip b)"
    "w_sync (strip a) = w_sync (strip b)" "w_user (strip a) = w_user (strip b)"
    "w_deep (strip a) = w_deep (strip b)" "w_queued (strip a) = w_queued (strip b)"
    "w_shallow (strip a) = w_shallow (strip b)" "w_value (strip a) = w_value (strip b)"
    using assms by simp_all
  then show "w_vm a = w_vm b" "w_active a = w_active b" "w_lazy a = w_lazy b" "w_dirty a = w_dirty b"
    "w_sync a = w_sync b" "w_user a = w_user b" "w_deep a = w_deep b" "w_queued a = w_queued b"
    "w_shallow a = w_shallow b" "w_value a = w_value b"
    by (simp_all add: strip_def)
qed


lemma bookkeeping_fields:
  assumes "bookkeeping_only s t"
  shows "queue t = queue s" "userQueue t = userQueue s" "has t = has s" "circular t = circular s"
    "waiting t = waiting s" "scheduled t = scheduled s" "warnings t = warnings s"
    "async t = async s" "user t = user s"
  using assms by (simp_all add: bookkeeping_only_def same_but_tracking_def)

lemma fold_removeSub_all:
  "fold (\<lambda>d t. removeSub d w t) ds s = fold (\<lambda>d t. if d \<notin> {} then removeSub d w t else t) ds s"
  by simp

lemma fold_removeSub_all_watchers:
  "watchers (fold (\<lambda>d t. removeSub d w t) ds s) = watchers s"
  using fold_removeSub_watchers[of "{}" w ds s] by simp

lemma fold_removeSub_all_count:
  "count_list (subs (fold (\<lambda>d t. removeSub d w t) ds s) e) w =
     count_list (subs s e) w - count_list ds e"
  using fold_removeSub_count[of "{}" w ds s e w] by simp

lemma teardown_result:
  assumes "w_active (watchers s w)" "w_vm (watchers s w) = Some v"
  shows "\<exists>s1. teardown w s =
           Inr ((fold (\<lambda>d t. removeSub d w t) (rev (w_deps (watchers s w))) s1)
                 \<lparr>watchers := (watchers s)
                     (w := (watchers s w)\<lparr>w_active := False, w_vm := None, w_value := Null\<rparr>)\<rparr>)
         \<and> subs s1 = subs s \<and> queue s1 = queue s \<and> userQueue s1 = userQueue s \<and> watchers s1 = watchers s"
proof -
  let ?V = "vms s v"
  let ?s1 = "if \<not> vm_isBeingDestroyed ?V \<and> \<not> vm_vForRemoving ?V
             then s\<lparr>vms := (vms s)(v := ?V\<lparr>vm_watchers := remove_item (vm_watchers ?V) w\<rparr>)\<rparr>
             else s"
  have w: "watchers (fold (\<lambda>d t. removeSub d w t) ds ?s1) = watchers s" for ds
    by (simp add: fold_removeSub_all_watchers)
  have "teardown w s =
           Inr ((fold (\<lambda>d t. removeSub d w t) (rev (w_deps (watchers s w))) ?s1)
                 \<lparr>watchers := (watchers s)
                     (w := (watchers s w)\<lparr>w_active := False, w_vm := None, w_value := Null\<rparr>)\<rparr>)"
    using assms by (simp add: teardown_def Let_def w)
  moreover have "subs ?s1 = subs s \<and> queue ?s1 = queue s \<and> userQueue ?s1 = userQueue s \<and> watchers ?s1 = watchers s"
    by simp
  ultimately show ?thesis by blast
qed

lemma fold_removeSub_queues:
  "queue (fold (\<lambda>d t. removeSub d w t) ds s) = queue s \<and>
   userQueue (fold (\<lambda>d t. removeSub d w t) ds s) = userQueue s"
  by (induction ds arbitrary: s) (simp_all add: removeSub_def)



lemma teardown_unsubscribes:
  assumes "idle_inv s w" "w_active (watchers s w)" "w_vm (watchers s w) = Some v"
  shows "\<exists>s'. teardown w s = Inr s' \<and> (\<forall>d. w \<notin> set (subs s' d)) \<and>
           \<not> w_active (watchers s' w) \<and> queue s' = queue s \<and> userQueue s' = userQueue s"
proof -
  obtain s1 where t: "teardown w s =
           Inr ((fold (\<lambda>d t. removeSub d w t) (rev (w_deps (watchers s w))) s1)
                 \<lparr>watchers := (watchers s)
                     (w := (watchers s w)\<lparr>w_active := False, w_vm := None, w_value := Null\<rparr>)\<rparr>)"
      and s1: "subs s1 = subs s" "queue s1 = queue s" "userQueue s1 = userQueue s"
    using teardown_result[OF assms(2,3)] by blast
  let ?s2 = "fold (\<lambda>d t. removeSub d w t) (rev (w_deps (watchers s w))) s1"
  have c: "count_list (subs ?s2 d) w = 0" for d
  proof -
    have "count_list (subs ?s2 d) w = count_list (subs s d) w - count_list (w_deps (watchers s w)) d"
      by (simp add: fold_removeSub_all_count s1)
    moreover have "count_list (subs s d) w = (if d \<in> w_depIds (watchers s w) then 1 else 0)"
      and "set (w_deps (watchers s w)) = w_depIds (watchers s w)"
      using assms(1) by (simp_all add: idle_inv_def recording_inv_def)
    moreover have "d \<in> set (w_deps (watchers s w)) \<Longrightarrow> count_list (w_deps (watchers s w)) d \<ge> 1"
      by (rule count_list_mem)
    ultimately show ?thesis by (cases "d \<in> w_depIds (watchers s w)") auto
  qed
  have "w \<notin> set (subs ?s2 d)" for d using c[of d] by (simp add: count_list_0_iff)
  then show ?thesis using t s1 fold_removeSub_queues[of w "rev (w_deps (watchers s w))" s1]
    by simp
qed

lemma run_shape:
  assumes "w_active (watchers s w)" "get U w s = (v, s1)"
  shows "run U w s =
     clear_flags w
       (if changed v (watchers s1 w)
        then e_cb U w v (w_value (watchers s1 w)) (set_value w v s1)
        else s1)"
  unfolding run_def Let_def assms(2) prod.case clear_flags_def set_value_def changed_def
  using assms(1) by (rule if_P)

lemma changed_strip: "strip a = strip b \<Longrightarrow> changed v a = changed v b"
  using strip_fields(7,9,10)[of a b] by (simp add: changed_def)

lemma run_active:
  assumes "w_active (watchers s w)"
  shows "run U w s =
     clear_flags w
       (if changed (fst (get U w s)) (watchers s w)
        then e_cb U w (fst (get U w s)) (w_value (watchers s w))
               (set_value w (fst (get U w s)) (snd (get U w s)))
        else snd (get U w s))"
proof -
  obtain v s1 where g: "get U w s = (v, s1)" by (cases "get U w s")
  have b: "strip (watchers s1 w) = strip (watchers s w)"
    using bookkeeping_get[of s U w] by (simp add: g bookkeeping_only_def)
  have c: "changed v (watchers s1 w) = changed v (watchers s w)"
    by (rule changed_strip[OF b])
  have v: "w_value (watchers s1 w) = w_value (watchers s w)"
    using strip_fields(10)[OF b] .
  show ?thesis
    using run_shape[OF assms g] by (simp only: c v g fst_conv snd_conv)
qed


lemma pushWatcher_noop: "has t w \<noteq> None \<Longrightarrow> pushWatcher w t = t"
  by (auto simp: pushWatcher_def)

lemma update_async:
  assumes "\<not> w_lazy (watchers s w)" "\<not> w_sync (watchers s w)" "async s"
  shows "update U w sh s =
     pushWatcher w
       (s\<lparr>watchers := (watchers s)
            (w := (watchers s w)\<lparr>w_shallow := (if w_queued (watchers s w)
                                                 then (if sh then w_shallow (watchers s w) else False)
                                                 else sh),
                                   w_queued := True\<rparr>)\<rparr>)"
  using assms by (simp add: update_def Let_def)

lemma update_again:
  assumes "\<not> w_lazy (watchers s w)" "\<not> w_sync (watchers s w)" "async s"
  shows "update U w False (update U w False s) = update U w False s"
proof -
  let ?s1 = "update U w False s"
  have s1: "?s1 = pushWatcher w
       (s\<lparr>watchers := (watchers s)(w := (watchers s w)\<lparr>w_shallow := False, w_queued := True\<rparr>)\<rparr>)"
    using update_async[OF assms, of U False] by simp
  have h: "has ?s1 w \<noteq> None"
    by (simp add: s1 pushWatcher_def Let_def)
  have w: "watchers ?s1 = (watchers s)(w := (watchers s w)\<lparr>w_shallow := False, w_queued := True\<rparr>)"
    by (simp add: s1 pushWatcher_def Let_def)
  have a: "async ?s1" using assms(3) by (simp add: s1 pushWatcher_def Let_def)
  have f: "\<not> w_lazy (watchers ?s1 w)" "\<not> w_sync (watchers ?s1 w)"
    using assms by (simp_all add: w)
  have "update U w False ?s1 =
     pushWatcher w (?s1\<lparr>watchers := (watchers ?s1)
            (w := (watchers ?s1 w)\<lparr>w_shallow := False, w_queued := True\<rparr>)\<rparr>)"
    using update_async[OF f a, of U False] by (simp add: w)
  also have "(?s1\<lparr>watchers := (watchers ?s1)
            (w := (watchers ?s1 w)\<lparr>w_shallow := False, w_queued := True\<rparr>)\<rparr>) = ?s1"
    by (simp add: w)
  also have "pushWatcher w ?s1 = ?s1" using h by (rule pushWatcher_noop)
  finally show ?thesis .
qed

lemma update_flags_kept:
  assumes "\<not> w_lazy (watchers s w)" "\<not> w_sync (watchers s w)" "async s"
  shows "\<not> w_lazy (watchers (update U w False s) w)" "\<not> w_sync (watchers (update U w False s) w)"
        "async (update U w False s)"
  using assms by (simp_all add: update_async pushWatcher_def Let_def)

lemma update_many:
  assumes "\<not> w_lazy (watchers s w)" "\<not> w_sync (watchers s w)" "async s" "1 \<le> N"
  shows "(update U w False ^^ N) s = update U w False s"
  using assms(4)
proof (induction N)
  case 0
  then show ?case by simp
next
  case (Suc N)
  show ?case
  proof (cases "N = 0")
    case True
    then show ?thesis by simp
  next
    case False
    then have "(update U w False ^^ N) s = update U w False s" using Suc.IH by simp
    then show ?thesis using update_again[OF assms(1-3), of U] by simp
  qed
qed

lemma update_enqueues:
  assumes "\<not> w_lazy (watchers s w)" "\<not> w_sync (watchers s w)" "async s" "has s w = None"
  shows "the_queue (w_user (watchers s w)) (update U w False s) =
           the_queue (w_user (watchers s w)) s @ [w]"
    and "the_queue (\<not> w_user (watchers s w)) (update U w False s) =
           the_queue (\<not> w_user (watchers s w)) s"
    and "has (update U w False s) = (has s)(w := Some (length (the_queue (w_user (watchers s w)) s)))"
    and "waiting (update U w False s)"
  using assms by (auto simp: update_async pushWatcher_def Let_def the_queue_def)

lemma get_queues:
  "queue (snd (get U w t)) = queue t" "userQueue (snd (get U w t)) = userQueue t"
  using bookkeeping_fields[OF bookkeeping_get[of t U w]] by simp_all

lemma run_queues:
  assumes "quiet U"
  shows "queue (run U w t) = queue t \<and> userQueue (run U w t) = userQueue t"
proof (cases "w_active (watchers t w)")
  case True
  show ?thesis
    using assms get_queues[of U w t]
    by (simp add: run_active[OF True] clear_flags_def set_value_def quiet_def)
next
  case False
  then show ?thesis by (simp add: run_def)
qed

lemma step_queue:
  assumes "quiet U"
  shows "the_queue uq (step U w t) = the_queue uq t"
  using run_queues[OF assms, of w "t\<lparr>has := (has t)(w := None)\<rparr>"]
  by (simp add: step_def the_queue_def)

lemma loop_fold:
  assumes "quiet U" "\<not> e_dev U"
  shows "length (the_queue uq s) - i < n \<Longrightarrow>
         runBatcherQueue_loop n U uq i s = Some (fold (step U) (drop i (the_queue uq s)) s)"
proof (induction n arbitrary: i s)
  case 0
  then show ?case by simp
next
  case (Suc n)
  show ?case
  proof (cases "i < length (the_queue uq s)")
    case False
    then show ?thesis by simp
  next
    case True
    let ?w = "the_queue uq s ! i"
    let ?s2 = "step U ?w s"
    have q: "the_queue uq ?s2 = the_queue uq s" by (rule step_queue[OF assms(1)])
    have "length (the_queue uq ?s2) - Suc i < n" using Suc.prems True by (simp add: q)
    from Suc.IH[OF this]
    have "runBatcherQueue_loop n U uq (Suc i) ?s2 =
            Some (fold (step U) (drop (Suc i) (the_queue uq s)) ?s2)" by (simp add: q)
    moreover have "drop i (the_queue uq s) = ?w # drop (Suc i) (the_queue uq s)"
      using True by (simp add: Cons_nth_drop_Suc)
    moreover have "run U ?w (s\<lparr>has := (has s)(?w := None)\<rparr>) = ?s2"
      by (simp add: step_def)
    ultimately show ?thesis using True assms(2)
      by (simp add: Let_def)
  qed
qed

lemma fold_step_queue:
  assumes "quiet U"
  shows "the_queue uq (fold (step U) ws t) = the_queue uq t"
  by (induction ws arbitrary: t) (simp_all add: step_queue[OF assms])

lemma runBatcherQueue_fold:
  assumes "quiet U" "\<not> e_dev U" "length (the_queue uq s) < n"
  shows "runBatcherQueue n U uq s = Some (clear_queue uq (fold (step U) (the_queue uq s) s))"
  using loop_fold[OF assms(1,2), of uq s 0 n] assms(3) by (simp add: runBatcherQueue_def)

lemma flush_fifo:
  assumes "quiet U" "\<not> e_dev U" "length (queue s) < n" "length (userQueue s) < n"
  shows "flushBatcherQueue (Suc n) U s =
     Some (resetBatcherState
            (fold (step U) (userQueue s) (clear_queue False (fold (step U) (queue s) s))))"
proof -
  let ?s1 = "clear_queue False (fold (step U) (queue s) s)"
  let ?s2 = "clear_queue True (fold (step U) (userQueue s) ?s1)"
  have 1: "runBatcherQueue n U False s = Some ?s1"
    using runBatcherQueue_fold[OF assms(1,2), of False s n] assms(3) by (simp add: the_queue_def)
  have u1: "userQueue ?s1 = userQueue s"
    using fold_step_queue[OF assms(1), of True "queue s" s] by (simp add: the_queue_def clear_queue_def)
  have 2: "runBatcherQueue n U True ?s1 = Some ?s2"
    using runBatcherQueue_fold[OF assms(1,2), of True ?s1 n] assms(4)
    by (simp add: the_queue_def u1)
  have q2: "queue ?s2 = []"
    using fold_step_queue[OF assms(1), of False "userQueue s" ?s1]
    by (simp add: the_queue_def clear_queue_def)
  have "resetBatcherState ?s2 = resetBatcherState (fold (step U) (userQueue s) ?s1)"
    by (simp add: resetBatcherState_def clear_queue_def)
  then show ?thesis using 1 2 q2 by simp
qed

lemma quiet_log_cb: "e_cb U = log_cb \<Longrightarrow> quiet U"
  by (simp add: quiet_def log_cb_def)

lemma get_user: "user (snd (get U w t)) = user t"
  using bookkeeping_fields[OF bookkeeping_get[of t U w]] by simp

lemma run_log:
  assumes "e_cb U = log_cb" "w_active (watchers t w)"
  shows "user (run U w t) =
           user t @ (if changed (fst (get U w t)) (watchers t w)
                     then [(w, fst (get U w t), w_value (watchers t w))] else [])"
  using assms get_user[of U w t]
  by (simp add: run_active clear_flags_def set_value_def log_cb_def)

lemma flush_after_triggers:
  assumes "\<not> w_lazy (watchers s w)" "\<not> w_sync (watchers s w)" "async s" "w_active (watchers s w)"
    "queue s = []" "userQueue s = []" "has s = (\<lambda>_. None)"
    "e_cb U = log_cb" "\<not> e_dev U" "1 \<le> N"
  shows "let s1 = (update U w False ^^ N) s;
             sq = s1\<lparr>has := (has s1)(w := None)\<rparr>;
             v = fst (get U w sq)
         in \<exists>t. flushBatcherQueue 3 U s1 = Some t \<and>
                user t = user s @ (if changed v (watchers sq w)
                                   then [(w, v, w_value (watchers s w))] else []) \<and>
                queue t = [] \<and> userQueue t = [] \<and> has t = (\<lambda>_. None) \<and> \<not> waiting t"
proof -
  let ?s1 = "update U w False s"
  let ?sq = "?s1\<lparr>has := (has ?s1)(w := None)\<rparr>"
  have m: "(update U w False ^^ N) s = ?s1"
    by (rule update_many[OF assms(1-3,10)])
  have h: "has s w = None" using assms(7) by simp
  note e = update_enqueues[OF assms(1-3) h, of U]
  have w1: "watchers ?s1 = (watchers s)(w := (watchers s w)\<lparr>w_shallow := False, w_queued := True\<rparr>)"
    using assms by (simp add: update_async pushWatcher_def Let_def)
  have u1: "user ?s1 = user s"
    using assms by (simp add: update_async pushWatcher_def Let_def)
  have act: "w_active (watchers ?sq w)" using assms(4) by (simp add: w1)
  have val: "w_value (watchers ?s1 w) = w_value (watchers s w)" by (simp add: w1)
  have q: "quiet U" by (rule quiet_log_cb[OF assms(8)])
  have len: "length (queue ?s1) < 2" "length (userQueue ?s1) < 2"
    using e(1,2) assms(5,6) by (cases "w_user (watchers s w)"; simp add: the_queue_def)+
  note f = flush_fifo[OF q assms(9) len]
  have st: "fold (step U) (userQueue ?s1) (clear_queue False (fold (step U) (queue ?s1) ?s1))
            = clear_queue False (run U w ?sq) \<or>
            fold (step U) (userQueue ?s1) (clear_queue False (fold (step U) (queue ?s1) ?s1))
            = run U w ?sq"
  proof (cases "w_user (watchers s w)")
    case True
    then have "queue ?s1 = []" "userQueue ?s1 = [w]"
      using e(1,2) assms(5,6) by (simp_all add: the_queue_def)
    moreover have "clear_queue False ?s1 = ?s1"
      using \<open>queue ?s1 = []\<close> by (simp add: clear_queue_def)
    ultimately show ?thesis by (simp add: step_def)
  next
    case False
    then have "queue ?s1 = [w]" "userQueue ?s1 = []"
      using e(1,2) assms(5,6) by (simp_all add: the_queue_def)
    then show ?thesis by (simp add: step_def)
  qed
  have "flushBatcherQueue 3 U ?s1 =
    Some (resetBatcherState (fold (step U) (userQueue ?s1) (clear_queue False (fold (step U) (queue ?s1) ?s1))))"
    using f by (simp add: numeral_3_eq_3 numeral_2_eq_2)
  moreover have "user (fold (step U) (userQueue ?s1) (clear_queue False (fold (step U) (queue ?s1) ?s1)))
      = user (run U w ?sq)"
    using st by (auto simp: clear_queue_def)
  moreover have "user (run U w ?sq) = user s @ (if changed (fst (get U w ?sq)) (watchers ?sq w)
                     then [(w, fst (get U w ?sq), w_value (watchers s w))] else [])"
    using run_log[OF assms(8) act] by (simp add: u1 val)
  ultimately show ?thesis
    unfolding m Let_def by (simp add: resetBatcherState_def)
qed





lemma pushable_has [simp]: "pushable w uq (t\<lparr>has := h\<rparr>) = pushable w uq t"
  by (simp add: pushable_def)

lemma pushable_circular [simp]: "pushable w uq (t\<lparr>circular := c\<rparr>) = pushable w uq t"
  by (simp add: pushable_def)

lemma the_queue_circular [simp]: "the_queue b (t\<lparr>circular := c\<rparr>) = the_queue b t"
  by (simp add: the_queue_def)

lemma the_queue_warnings [simp]: "the_queue b (t\<lparr>warnings := c\<rparr>) = the_queue b t"
  by (simp add: the_queue_def)





lemma pushable_clear [simp]: "pushable w uq (clear_queue b t) = pushable w uq t"
  by (simp add: pushable_def clear_queue_def)




lemma watching_state_simps:
  "idle_inv (watching_state v) 2"
  "w_active (watchers (watching_state v) 2)"
  "\<not> w_lazy (watchers (watching_state v) 2)"
  "\<not> w_sync (watchers (watching_state v) 2)"
  "\<not> w_user (watchers (watching_state v) 2)"
  "async (watching_state v)"
  "queue (watching_state v) = []" "userQueue (watching_state v) = []"
  "has (watching_state v) = (\<lambda>_. None)"
  "w_value (watchers (watching_state v) 2) = v"
  "user (watching_state v) = []"
  by (simp_all add: watching_state_def empty_state_def blank_watcher_def idle_inv_def recording_inv_def)

lemma const_env_simps:
  "e_cb (const_env r) = log_cb" "\<not> e_dev (const_env r)"
  "e_getter (const_env r) w s = ([0], r)"
  "e_preProcess (const_env r) w = None" "e_filters (const_env r) w = None"
  "e_postProcess (const_env r) w = None"
  by (simp_all add: const_env_def)

lemma const_env_get: "fst (get (const_env r) w s) = (case r of None \<Rightarrow> Undefined | Some v \<Rightarrow> v)"
  by (simp add: get_def const_env_def Let_def apply_hook_def)





section \<open>Observer: reactive accessors, observe, the array methods\<close>

lemma addDep_target: "target (addDep w d s) = target s"
  by (simp add: addDep_def addSub_def Let_def)

lemma depends_recording:
  "target s = Some w \<Longrightarrow> depends ds s = Inr (fold (addDep w) ds s)"
proof (induction ds arbitrary: s)
  case Nil
  show ?case by simp
next
  case (Cons d ds)
  have "target (addDep w d s) = Some w" using Cons.prems by (simp add: addDep_target)
  from Cons.IH[OF this] show ?case using Cons.prems by (simp add: depend_def)
qed

lemma reactiveGetter_returns: "\<exists>v t. reactiveGetter U c s = Inr (v, t)"
proof (cases "target s")
  case None
  then show ?thesis by (simp add: reactiveGetter_def)
next
  case (Some w)
  show ?thesis
    by (simp add: reactiveGetter_def Let_def Some depends_recording[OF Some])
qed

lemma track_depend: "target s \<noteq> None \<Longrightarrow> depend d s = Inr (track d s)"
  by (auto simp: depend_def track_def)

lemma reactiveSetter_same:
  "strict_eq newVal (current_value U c s) \<Longrightarrow> reactiveSetter obs U upd c newVal s = Some s"
  by (simp add: reactiveSetter_def)

lemma reactiveSetter_other:
  "\<not> strict_eq newVal (current_value U c s) \<Longrightarrow>
   reactiveSetter obs U upd c newVal s =
     (case obs newVal (store_value U c newVal s) of
        None \<Rightarrow> None
      | Some (childOb, s2) \<Rightarrow>
          Some (notify upd (c_dep (closures s2 c)) (set_childOb c childOb s2)))"
  by (simp add: reactiveSetter_def store_value_def set_childOb_def Let_def split: option.splits)

lemma om_refl [simp]: "observed_more s s"
  by (simp add: observed_more_def)

lemma om_trans: "observed_more s t \<Longrightarrow> observed_more t r \<Longrightarrow> observed_more s r"
  by (auto simp: observed_more_def)

lemma om_same_heap:
  "heap t = heap s \<Longrightarrow> shouldConvert t = shouldConvert s \<Longrightarrow> observed_more s t"
  by (simp add: observed_more_def unobserved_def)

lemma filter_update_length:
  "a < length xs \<Longrightarrow>
   length (filter P (xs[a := y])) + (if P (xs ! a) then 1 else 0) =
   length (filter P xs) + (if P y then 1 else 0)"
proof (induction xs arbitrary: a)
  case Nil
  then show ?case by simp
next
  case (Cons x xs)
  show ?case
  proof (cases a)
    case 0
    then show ?thesis by simp
  next
    case (Suc k)
    then have "k < length xs" using Cons.prems by simp
    from Cons.IH[OF this] show ?thesis using Suc by simp
  qed
qed

lemma om_bookkeeping: "bookkeeping_only s t \<Longrightarrow> observed_more s t"
  by (rule om_same_heap) (simp_all add: bookkeeping_only_def same_but_tracking_def)

lemma bookkeeping_fold_addDep: "bookkeeping_only s (fold (addDep w) ds s)"
  by (rule bookkeeping_fold) (rule bookkeeping_addDep)

lemma reactiveGetter_recording:
  assumes "target s = Some w"
  shows "\<exists>ds. reactiveGetter U c s = Inr (current_value U c s, fold (addDep w) ds s)"
proof -
  let ?ds = "[c_dep (closures s c)] @
                 (case c_childOb (closures s c) of
                    Some ob \<Rightarrow> [ob_dep (observers s ob)]
                  | None \<Rightarrow> []) @
                 (if isArray s (current_value U c s)
                  then concat (map (element_dep s) (elements s (current_value U c s))) else [])"
  have "reactiveGetter U c s = Inr (current_value U c s, fold (addDep w) ?ds s)"
    unfolding reactiveGetter_def Let_def depends_recording[OF assms] using assms by simp
  then show ?thesis by blast
qed

lemma reactiveGetter_bookkeeping:
  "reactiveGetter U c s = Inr (v, t) \<Longrightarrow> bookkeeping_only s t"
proof (cases "target s")
  case None
  assume "reactiveGetter U c s = Inr (v, t)"
  then show ?thesis using None by (simp add: reactiveGetter_def)
next
  case (Some w)
  assume "reactiveGetter U c s = Inr (v, t)"
  then show ?thesis
    using bookkeeping_fold_addDep[of s w] reactiveGetter_recording[OF Some, of U c]
    by auto
qed

lemma read_prop_bookkeeping: "bookkeeping_only s (snd (read_prop U a k s))"
proof -
  have "bookkeeping_only s (snd (case reactiveGetter U c s of Inr r \<Rightarrow> r | Inl e \<Rightarrow> (Undefined, s)))" for c
    using reactiveGetter_returns[of U c s] reactiveGetter_bookkeeping[of U c s]
    by auto
  then show ?thesis
    by (auto simp: read_prop_def split: option.splits slot.splits accessor.splits)
qed

lemma om_defineProperty:
  "a < length (heap s) \<Longrightarrow> observed_more s (defineProperty a key pd s)"
  using filter_update_length[of a "heap s" "\<lambda>obj. o_ob obj = None"
      "(heap s ! a)\<lparr>o_props := AList.update key pd (o_props (heap s ! a))\<rparr>"]
  by (auto simp: observed_more_def defineProperty_def unobserved_def nth_list_update)

lemma om_defineProperty_any: "observed_more s (defineProperty a key pd s)"
proof (cases "a < length (heap s)")
  case True
  then show ?thesis by (rule om_defineProperty)
next
  case False
  then show ?thesis by (simp add: defineProperty_def om_same_heap list_update_beyond)
qed

lemma om_new_Dep: "observed_more s (snd (new_Dep s))"
  by (simp add: new_Dep_def om_same_heap)

lemma defineReactive_unfold:
  "defineReactive obs a k v s =
     (if blocked (own_prop (snd (new_Dep s)) a k) then Some (snd (new_Dep s))
      else case obs v (snd (new_Dep s)) of
             None \<Rightarrow> None
           | Some (childOb, s2) \<Rightarrow>
               Some (install a k (fst (new_Dep s)) v childOb (own_prop (snd (new_Dep s)) a k) s2))"
  by (simp add: defineReactive_def install_def blocked_def Let_def split_beta
      split: option.splits)

lemma om_install: "observed_more s (install a k d v childOb property s)"
proof -
  let ?s3 = "s\<lparr>closures := (closures s)
               (closure_uid s := \<lparr>c_obj = a, c_key = k, c_dep = d, c_val = v,
                    c_childOb = childOb, c_getter = slot_getter property,
                    c_setter = slot_setter property\<rparr>),
             closure_uid := Suc (closure_uid s)\<rparr>"
  have 1: "observed_more s ?s3" by (simp add: om_same_heap)
  show ?thesis
    unfolding install_def by (rule om_trans[OF 1 om_defineProperty_any])
qed

lemma defineReactive_more:
  assumes "sound_obs obs" "defineReactive obs a k v s = Some t"
  shows "observed_more s t"
proof -
  let ?s1 = "snd (new_Dep s)"
  have 1: "observed_more s ?s1" by (rule om_new_Dep)
  show ?thesis
  proof (cases "blocked (own_prop ?s1 a k)")
    case True
    then have "t = ?s1" using assms(2) by (simp add: defineReactive_unfold)
    then show ?thesis using 1 by simp
  next
    case False
    then obtain childOb s2 where o: "obs v ?s1 = Some (childOb, s2)"
      and t: "t = install a k (fst (new_Dep s)) v childOb (own_prop ?s1 a k) s2"
      using assms(2) by (auto simp: defineReactive_unfold split: option.splits)
    have 2: "observed_more ?s1 s2" using assms(1) o by (auto simp: sound_obs_def)
    show ?thesis unfolding t using om_trans[OF om_trans[OF 1 2] om_install] .
  qed
qed

lemma walk_keys_more:
  assumes "sound_obs obs"
  shows "walk_keys obs U a ks s = Some t \<Longrightarrow> observed_more s t"
proof (induction ks arbitrary: s)
  case Nil
  then show ?case by simp
next
  case (Cons k ks)
  obtain v s1 where r: "read_prop U a k s = (v, s1)" by (cases "read_prop U a k s")
  have 1: "observed_more s s1"
    using om_bookkeeping[OF read_prop_bookkeeping[of s U a k]] by (simp add: r)
  obtain s2 where d: "defineReactive obs a k v s1 = Some s2" and w: "walk_keys obs U a ks s2 = Some t"
    using Cons.prems by (auto simp: r split: option.splits)
  have 2: "observed_more s1 s2" by (rule defineReactive_more[OF assms d])
  have 3: "observed_more s2 t" by (rule Cons.IH[OF w])
  show ?case using om_trans[OF om_trans[OF 1 2] 3] .
qed

lemma observeArray_more:
  assumes "sound_obs obs"
  shows "observeArray obs xs s = Some t \<Longrightarrow> observed_more s t"
proof (induction xs arbitrary: s)
  case Nil
  then show ?case by simp
next
  case (Cons x xs)
  obtain ob s1 where o: "obs x s = Some (ob, s1)" and r: "observeArray obs xs s1 = Some t"
    using Cons.prems by (auto split: option.splits)
  have "observed_more s s1" using assms o by (auto simp: sound_obs_def)
  then show ?case using om_trans Cons.IH[OF r] by blast
qed

lemma om_attach:
  assumes "a < length (heap s)" "o_ob (heap s ! a) = None"
  shows "observed_more s (s\<lparr>heap := (heap s)[a := (heap s ! a)\<lparr>o_ob := Some ob\<rparr>]\<rparr>)"
    and "unobserved (s\<lparr>heap := (heap s)[a := (heap s ! a)\<lparr>o_ob := Some ob\<rparr>]\<rparr>) < unobserved s"
  using filter_update_length[OF assms(1), of "\<lambda>obj. o_ob obj = None" "(heap s ! a)\<lparr>o_ob := Some ob\<rparr>"]
    assms
  by (auto simp: observed_more_def unobserved_def nth_list_update)

lemma om_augment:
  "observed_more s (s\<lparr>heap := (heap s)[a := (heap s ! a)\<lparr>o_augmented := True\<rparr>]\<rparr>)"
proof (cases "a < length (heap s)")
  case True
  then show ?thesis
    using filter_update_length[OF True, of "\<lambda>obj. o_ob obj = None" "(heap s ! a)\<lparr>o_augmented := True\<rparr>"]
    by (auto simp: observed_more_def unobserved_def nth_list_update)
next
  case False
  then show ?thesis by (simp add: om_same_heap list_update_beyond)
qed

lemma new_Observer_unfold:
  "new_Observer obs U a s =
     map_option (Pair (observer_uid s))
       (if o_kind (heap (attach a s) ! a) = ArrayObj
        then observeArray obs (o_elems (heap (augment a (attach a s)) ! a)) (augment a (attach a s))
        else walk obs U a (attach a s))"
  by (simp add: new_Observer_def attach_def augment_def new_Dep_def Let_def)

lemma attach_props:
  assumes "a < length (heap s)" "o_ob (heap s ! a) = None"
  shows "observed_more s (attach a s)" "unobserved (attach a s) < unobserved s"
    "o_ob (heap (attach a s) ! a) = Some (observer_uid s)"
proof -
  let ?s2 = "(snd (new_Dep s))\<lparr>observers := (observers (snd (new_Dep s)))
                    (observer_uid (snd (new_Dep s)) := \<lparr>ob_value = a, ob_dep = fst (new_Dep s), ob_vms = []\<rparr>),
                  observer_uid := Suc (observer_uid (snd (new_Dep s)))\<rparr>"
  have h: "heap ?s2 = heap s" "shouldConvert ?s2 = shouldConvert s"
    by (simp_all add: new_Dep_def)
  have u: "unobserved ?s2 = unobserved s" by (simp add: unobserved_def h)
  have 1: "observed_more s ?s2" by (rule om_same_heap[OF h])
  have a2: "a < length (heap ?s2)" "o_ob (heap ?s2 ! a) = None" using assms by (simp_all add: h)
  have e: "attach a s = ?s2\<lparr>heap := (heap ?s2)[a := (heap ?s2 ! a)\<lparr>o_ob := Some (observer_uid s)\<rparr>]\<rparr>"
    by (simp add: attach_def Let_def new_Dep_def)
  show "observed_more s (attach a s)"
    unfolding e by (rule om_trans[OF 1 om_attach(1)[OF a2]])
  show "unobserved (attach a s) < unobserved s"
    unfolding e using om_attach(2)[OF a2, of "observer_uid s"] u by simp
  show "o_ob (heap (attach a s) ! a) = Some (observer_uid s)"
    unfolding e using a2(1) by simp
qed

lemma new_Observer_more:
  assumes "sound_obs obs" "a < length (heap s)" "o_ob (heap s ! a) = None"
    "new_Observer obs U a s = Some (ob, t)"
  shows "observed_more s t" "o_ob (heap t ! a) = Some ob" "unobserved t < unobserved s"
proof -
  note p = attach_props[OF assms(2,3)]
  have ob: "ob = observer_uid s" using assms(4) by (auto simp: new_Observer_unfold)
  have r: "observed_more (attach a s) t"
  proof (cases "o_kind (heap (attach a s) ! a) = ArrayObj")
    case True
    then have "observeArray obs (o_elems (heap (augment a (attach a s)) ! a)) (augment a (attach a s)) = Some t"
      using assms(4) by (auto simp: new_Observer_unfold)
    from observeArray_more[OF assms(1) this] show ?thesis
      using om_trans[OF om_augment[of "attach a s" a]] by (simp add: augment_def)
  next
    case False
    then have "walk obs U a (attach a s) = Some t"
      using assms(4) by (auto simp: new_Observer_unfold)
    then show ?thesis using walk_keys_more[OF assms(1)] by (simp add: walk_def)
  qed
  show "observed_more s t" by (rule om_trans[OF p(1) r])
  have l: "a < length (heap (attach a s))" using p(1) assms(2) by (simp add: observed_more_def)
  show "o_ob (heap t ! a) = Some ob"
    using r l p(3) ob by (simp add: observed_more_def)
  show "unobserved t < unobserved s"
    using r p(2) by (simp add: observed_more_def)
qed

lemma om_addVm: "observed_more s (addVm ob v s)"
  by (simp add: addVm_def om_same_heap)

lemma observe_sound: "sound_obs (\<lambda>v t. observe n U v vm t)"
proof (induction n arbitrary: vm)
  case 0
  show ?case by (simp add: sound_obs_def)
next
  case (Suc n)
  have ih: "sound_obs (\<lambda>v t. observe n U v None t)" by (rule Suc.IH)
  show ?case
    unfolding sound_obs_def
  proof (intro allI impI)
    fix v s r t
    assume o: "observe (Suc n) U v vm s = Some (r, t)"
    show "observed_more s t"
    proof (cases v)
      case (Ref a)
      show ?thesis
      proof (cases "a < length (heap s)")
        case False
        then show ?thesis using o Ref by simp
      next
        case True
        show ?thesis
        proof (cases "o_ob (heap s ! a)")
          case (Some ob)
          then show ?thesis using o Ref True
            by (auto simp: om_addVm split: option.splits)
        next
          case None
          show ?thesis
          proof (cases "convertible s a")
            case False
            then show ?thesis using o Ref True None by auto
          next
            case c: True
            obtain ob s1 where n: "new_Observer (\<lambda>v t. observe n U v None t) U a s = Some (ob, s1)"
              and t: "t = (case vm of Some v \<Rightarrow> addVm ob v s1 | None \<Rightarrow> s1)"
              using o Ref True None c by (auto split: option.splits)
            have "observed_more s s1" by (rule new_Observer_more(1)[OF ih True None n])
            then show ?thesis unfolding t
              using om_trans[OF _ om_addVm] by (auto split: option.splits)
          qed
        qed
      qed
    qed (use o in auto)
  qed
qed

lemma om_unobserved: "observed_more s t \<Longrightarrow> unobserved t \<le> unobserved s"
  by (simp add: observed_more_def)

lemma total_belowD:
  "total_below obs n \<Longrightarrow> unobserved s < n \<Longrightarrow> \<exists>r t. obs v s = Some (r, t)"
  by (simp add: total_below_def)

lemma defineReactive_total:
  assumes "total_below obs n" "unobserved s < n"
  shows "\<exists>t. defineReactive obs a k v s = Some t"
proof -
  have "unobserved (snd (new_Dep s)) < n"
    using om_unobserved[OF om_new_Dep[of s]] assms(2) by simp
  then obtain r t where "obs v (snd (new_Dep s)) = Some (r, t)"
    using total_belowD[OF assms(1)] by blast
  then show ?thesis by (simp add: defineReactive_unfold)
qed

lemma walk_keys_total:
  assumes "sound_obs obs" "total_below obs n"
  shows "unobserved s < n \<Longrightarrow> \<exists>t. walk_keys obs U a ks s = Some t"
proof (induction ks arbitrary: s)
  case Nil
  show ?case by simp
next
  case (Cons k ks)
  obtain v s1 where r: "read_prop U a k s = (v, s1)" by (cases "read_prop U a k s")
  have 1: "unobserved s1 < n"
    using om_unobserved[OF om_bookkeeping[OF read_prop_bookkeeping[of s U a k]]] Cons.prems
    by (simp add: r)
  obtain s2 where d: "defineReactive obs a k v s1 = Some s2"
    using defineReactive_total[OF assms(2) 1] by blast
  have "unobserved s2 < n"
    using om_unobserved[OF defineReactive_more[OF assms(1) d]] 1 by simp
  from Cons.IH[OF this] show ?case by (simp add: r d)
qed

lemma observeArray_total:
  assumes "sound_obs obs" "total_below obs n"
  shows "unobserved s < n \<Longrightarrow> \<exists>t. observeArray obs xs s = Some t"
proof (induction xs arbitrary: s)
  case Nil
  show ?case by simp
next
  case (Cons x xs)
  obtain r s1 where o: "obs x s = Some (r, s1)"
    using total_belowD[OF assms(2) Cons.prems] by blast
  have "observed_more s s1" using assms(1) o by (auto simp: sound_obs_def)
  then have "unobserved s1 < n" using om_unobserved Cons.prems by fastforce
  from Cons.IH[OF this] show ?case by (simp add: o)
qed

lemma new_Observer_total:
  assumes "sound_obs obs" "total_below obs n" "a < length (heap s)" "o_ob (heap s ! a) = None"
    "unobserved s \<le> n"
  shows "\<exists>ob t. new_Observer obs U a s = Some (ob, t)"
proof -
  note p = attach_props[OF assms(3,4)]
  have 1: "unobserved (attach a s) < n" using p(2) assms(5) by simp
  have 2: "unobserved (augment a (attach a s)) < n"
    using om_unobserved[OF om_augment[of "attach a s" a]] 1 by (simp add: augment_def)
  show ?thesis
    using observeArray_total[OF assms(1,2) 2] walk_keys_total[OF assms(1,2) 1]
    by (simp add: new_Observer_unfold walk_def)
qed

lemma observe_total:
  "unobserved s < n \<Longrightarrow> \<exists>r t. observe n U v vm s = Some (r, t)"
proof (induction n arbitrary: s v vm)
  case 0
  then show ?case by simp
next
  case (Suc n)
  have tb: "total_below (\<lambda>v t. observe n U v None t) n"
    unfolding total_below_def using Suc.IH by blast
  have so: "sound_obs (\<lambda>v t. observe n U v None t)" by (rule observe_sound)
  show ?case
  proof (cases v)
    case (Ref a)
    show ?thesis
    proof (cases "a < length (heap s) \<and> o_ob (heap s ! a) = None \<and> convertible s a")
      case True
      then obtain ob t where "new_Observer (\<lambda>v t. observe n U v None t) U a s = Some (ob, t)"
        using new_Observer_total[OF so tb, of a s U] Suc.prems by auto
      then show ?thesis using True Ref by simp
    next
      case False
      then show ?thesis using Ref by (auto split: option.splits)
    qed
  qed simp_all
qed

lemma observe_result:
  assumes "observe n U (Ref a) vm s = Some (r, t)" "a < length (heap s)"
  shows "o_ob (heap s ! a) = Some ob \<Longrightarrow>
           r = Some ob \<and> t = (case vm of Some v \<Rightarrow> addVm ob v s | None \<Rightarrow> s)"
    and "o_ob (heap s ! a) = None \<Longrightarrow> \<not> convertible s a \<Longrightarrow> r = None \<and> t = s"
    and "o_ob (heap s ! a) = None \<Longrightarrow> convertible s a \<Longrightarrow>
           r = Some (observer_uid s) \<and> o_ob (heap t ! a) = r \<and> a < length (heap t)"
proof -
  obtain m where n: "n = Suc m" using assms(1) by (cases n) auto
  show "o_ob (heap s ! a) = Some ob \<Longrightarrow>
           r = Some ob \<and> t = (case vm of Some v \<Rightarrow> addVm ob v s | None \<Rightarrow> s)"
    using assms by (auto simp: n)
  show "o_ob (heap s ! a) = None \<Longrightarrow> \<not> convertible s a \<Longrightarrow> r = None \<and> t = s"
    using assms by (auto simp: n)
  show "r = Some (observer_uid s) \<and> o_ob (heap t ! a) = r \<and> a < length (heap t)"
    if u: "o_ob (heap s ! a) = None" and c: "convertible s a"
  proof -
    obtain ob s1 where o: "new_Observer (\<lambda>v t. observe m U v None t) U a s = Some (ob, s1)"
      and r: "r = Some ob" and t: "t = (case vm of Some v \<Rightarrow> addVm ob v s1 | None \<Rightarrow> s1)"
      using assms u c by (auto simp: n split: option.splits)
    note p = new_Observer_more[OF observe_sound assms(2) u o]
    have ob: "ob = observer_uid s" using o by (auto simp: new_Observer_unfold)
    have "heap t = heap s1" unfolding t by (simp add: addVm_def split: option.splits)
    then show ?thesis using p(1,2) r ob assms(2) by (simp add: observed_more_def)
  qed
qed

lemma observe_existing:
  "a < length (heap t) \<Longrightarrow> o_ob (heap t ! a) = Some ob \<Longrightarrow>
   observe (Suc m) U (Ref a) None t = Some (Some ob, t)"
  by simp

lemma nested_state_simps:
  "length (heap nested_state) = 2" "o_ob (heap nested_state ! 0) = None"
  "convertible nested_state 0" "unobserved nested_state = 2" "observer_uid nested_state = 0"
  by (simp_all add: nested_state_def empty_state_def plain_obj_def convertible_def unobserved_def)







lemma ok_refl [simp]: "observers_kept s s"
  by (simp add: observers_kept_def)

lemma ok_trans: "observers_kept s t \<Longrightarrow> observers_kept t r \<Longrightarrow> observers_kept s r"
  by (auto simp: observers_kept_def)

lemma ok_same:
  "observers t = observers s \<Longrightarrow> observer_uid t = observer_uid s \<Longrightarrow> observers_kept s t"
  by (simp add: observers_kept_def)

lemma ok_bookkeeping: "bookkeeping_only s t \<Longrightarrow> observers_kept s t"
  by (rule ok_same) (simp_all add: bookkeeping_only_def same_but_tracking_def)

lemma ok_new_Dep: "observers_kept s (snd (new_Dep s))"
  by (simp add: new_Dep_def ok_same)

lemma ok_install: "observers_kept s (install a k d v childOb property s)"
  by (simp add: install_def defineProperty_def ok_same)

lemma ok_addVm: "observers_kept s (addVm ob v s)"
  by (simp add: addVm_def observers_kept_def)

lemma ok_attach:
  "observers_kept s (attach a s)"
  "observer_uid s < observer_uid (attach a s)"
  "ob_value (observers (attach a s) (observer_uid s)) = a"
  by (simp_all add: attach_def observers_kept_def new_Dep_def Let_def)

lemma ok_augment: "observers_kept s (augment a s)"
  by (simp add: augment_def ok_same)

lemma defineReactive_keeps:
  assumes "keeps_obs obs" "defineReactive obs a k v s = Some t"
  shows "observers_kept s t"
proof -
  let ?s1 = "snd (new_Dep s)"
  have 1: "observers_kept s ?s1" by (rule ok_new_Dep)
  show ?thesis
  proof (cases "blocked (own_prop ?s1 a k)")
    case True
    then have "t = ?s1" using assms(2) by (simp add: defineReactive_unfold)
    then show ?thesis using 1 by simp
  next
    case False
    then obtain childOb s2 where o: "obs v ?s1 = Some (childOb, s2)"
      and t: "t = install a k (fst (new_Dep s)) v childOb (own_prop ?s1 a k) s2"
      using assms(2) by (auto simp: defineReactive_unfold split: option.splits)
    have 2: "observers_kept ?s1 s2" using assms(1) o by (auto simp: keeps_obs_def)
    show ?thesis unfolding t using ok_trans[OF ok_trans[OF 1 2] ok_install] .
  qed
qed

lemma walk_keys_keeps:
  assumes "keeps_obs obs"
  shows "walk_keys obs U a ks s = Some t \<Longrightarrow> observers_kept s t"
proof (induction ks arbitrary: s)
  case Nil
  then show ?case by simp
next
  case (Cons k ks)
  obtain v s1 where r: "read_prop U a k s = (v, s1)" by (cases "read_prop U a k s")
  have 1: "observers_kept s s1"
    using ok_bookkeeping[OF read_prop_bookkeeping[of s U a k]] by (simp add: r)
  obtain s2 where d: "defineReactive obs a k v s1 = Some s2" and w: "walk_keys obs U a ks s2 = Some t"
    using Cons.prems by (auto simp: r split: option.splits)
  have 2: "observers_kept s1 s2" by (rule defineReactive_keeps[OF assms d])
  have 3: "observers_kept s2 t" by (rule Cons.IH[OF w])
  show ?case using ok_trans[OF ok_trans[OF 1 2] 3] .
qed

lemma observeArray_keeps:
  assumes "keeps_obs obs"
  shows "observeArray obs xs s = Some t \<Longrightarrow> observers_kept s t"
proof (induction xs arbitrary: s)
  case Nil
  then show ?case by simp
next
  case (Cons x xs)
  obtain ob s1 where o: "obs x s = Some (ob, s1)" and r: "observeArray obs xs s1 = Some t"
    using Cons.prems by (auto split: option.splits)
  have "observers_kept s s1" using assms o by (auto simp: keeps_obs_def)
  then show ?case using ok_trans Cons.IH[OF r] by blast
qed

lemma new_Observer_keeps:
  assumes "keeps_obs obs" "new_Observer obs U a s = Some (ob, t)"
  shows "observers_kept s t" "ob_value (observers t ob) = a" "ob < observer_uid t"
proof -
  have ob: "ob = observer_uid s" using assms(2) by (auto simp: new_Observer_unfold)
  have r: "observers_kept (attach a s) t"
  proof (cases "o_kind (heap (attach a s) ! a) = ArrayObj")
    case True
    then have "observeArray obs (o_elems (heap (augment a (attach a s)) ! a)) (augment a (attach a s)) = Some t"
      using assms(2) by (auto simp: new_Observer_unfold)
    from observeArray_keeps[OF assms(1) this] show ?thesis
      using ok_trans[OF ok_augment[of "attach a s" a]] by simp
  next
    case False
    then have "walk obs U a (attach a s) = Some t"
      using assms(2) by (auto simp: new_Observer_unfold)
    then show ?thesis using walk_keys_keeps[OF assms(1)] by (simp add: walk_def)
  qed
  show "observers_kept s t" by (rule ok_trans[OF ok_attach(1) r])
  show "ob_value (observers t ob) = a"
    using r ok_attach(2,3)[where s = s and a = a] unfolding ob by (simp add: observers_kept_def)
  show "ob < observer_uid t"
    using r ok_attach(2)[where s = s and a = a] unfolding ob by (simp add: observers_kept_def)
qed

lemma observe_keeps: "keeps_obs (\<lambda>v t. observe n U v vm t)"
proof (induction n arbitrary: vm)
  case 0
  show ?case by (simp add: keeps_obs_def)
next
  case (Suc n)
  have ih: "keeps_obs (\<lambda>v t. observe n U v None t)" by (rule Suc.IH)
  show ?case
    unfolding keeps_obs_def
  proof (intro allI impI)
    fix v s r t
    assume o: "observe (Suc n) U v vm s = Some (r, t)"
    show "observers_kept s t"
    proof (cases v)
      case (Ref a)
      show ?thesis
      proof (cases "a < length (heap s) \<and> o_ob (heap s ! a) = None \<and> convertible s a")
        case True
        obtain ob s1 where n: "new_Observer (\<lambda>v t. observe n U v None t) U a s = Some (ob, s1)"
          and t: "t = (case vm of Some v \<Rightarrow> addVm ob v s1 | None \<Rightarrow> s1)"
          using o Ref True by (auto split: option.splits)
        have "observers_kept s s1" by (rule new_Observer_keeps(1)[OF ih n])
        then show ?thesis unfolding t
          using ok_trans[OF _ ok_addVm] by (auto split: option.splits)
      next
        case False
        then show ?thesis using o Ref
          by (auto simp: ok_addVm split: option.splits if_splits)
      qed
    qed (use o in auto)
  qed
qed


lemma observe_attaches:
  assumes "observe n U (Ref a) vm s = Some (r, t)" "a < length (heap s)"
    "o_ob (heap s ! a) = None" "convertible s a"
  shows "ob_value (observers t (observer_uid s)) = a"
proof -
  obtain m where n: "n = Suc m" using assms(1) by (cases n) auto
  obtain ob s1 where o: "new_Observer (\<lambda>v t. observe m U v None t) U a s = Some (ob, s1)"
    and t: "t = (case vm of Some v \<Rightarrow> addVm ob v s1 | None \<Rightarrow> s1)"
    using assms by (auto simp: n split: option.splits)
  have ob: "ob = observer_uid s" using o by (auto simp: new_Observer_unfold)
  have "ob_value (observers s1 ob) = a" by (rule new_Observer_keeps(2)[OF observe_keeps o])
  then show ?thesis unfolding t ob[symmetric] by (simp add: addVm_def split: option.splits)
qed

lemma defineReactive_mono:
  assumes "obs_le obs obs'" "defineReactive obs a k v s = Some t"
  shows "defineReactive obs' a k v s = Some t"
proof (cases "blocked (own_prop (snd (new_Dep s)) a k)")
  case True
  then show ?thesis using assms(2) by (simp add: defineReactive_unfold)
next
  case False
  then obtain childOb s2 where o: "obs v (snd (new_Dep s)) = Some (childOb, s2)"
    and t: "t = install a k (fst (new_Dep s)) v childOb (own_prop (snd (new_Dep s)) a k) s2"
    using assms(2) by (auto simp: defineReactive_unfold split: option.splits)
  have "obs' v (snd (new_Dep s)) = Some (childOb, s2)"
    using assms(1) o by (simp add: obs_le_def)
  then show ?thesis using False t by (simp add: defineReactive_unfold)
qed

lemma walk_keys_mono:
  assumes "obs_le obs obs'"
  shows "walk_keys obs U a ks s = Some t \<Longrightarrow> walk_keys obs' U a ks s = Some t"
proof (induction ks arbitrary: s)
  case Nil
  then show ?case by simp
next
  case (Cons k ks)
  obtain v s1 where r: "read_prop U a k s = (v, s1)" by (cases "read_prop U a k s")
  obtain s2 where d: "defineReactive obs a k v s1 = Some s2" and w: "walk_keys obs U a ks s2 = Some t"
    using Cons.prems by (auto simp: r split: option.splits)
  show ?case using defineReactive_mono[OF assms d] Cons.IH[OF w] by (simp add: r)
qed

lemma observeArray_mono:
  assumes "obs_le obs obs'"
  shows "observeArray obs xs s = Some t \<Longrightarrow> observeArray obs' xs s = Some t"
proof (induction xs arbitrary: s)
  case Nil
  then show ?case by simp
next
  case (Cons x xs)
  obtain ob s1 where o: "obs x s = Some (ob, s1)" and r: "observeArray obs xs s1 = Some t"
    using Cons.prems by (auto split: option.splits)
  have "obs' x s = Some (ob, s1)" using assms o by (simp add: obs_le_def)
  then show ?case using Cons.IH[OF r] by simp
qed

lemma new_Observer_mono:
  assumes "obs_le obs obs'" "new_Observer obs U a s = Some x"
  shows "new_Observer obs' U a s = Some x"
  using assms(2) observeArray_mono[OF assms(1)] walk_keys_mono[OF assms(1)]
  by (auto simp: new_Observer_unfold walk_def split: if_splits)

lemma observe_Suc:
  "observe n U v vm s = Some x \<Longrightarrow> observe (Suc n) U v vm s = Some x"
proof (induction n arbitrary: v vm s x)
  case 0
  then show ?case by simp
next
  case (Suc n)
  have le: "obs_le (\<lambda>v t. observe n U v None t) (\<lambda>v t. observe (Suc n) U v None t)"
    unfolding obs_le_def using Suc.IH by blast
  show ?case
  proof (cases v)
    case (Ref a)
    show ?thesis
    proof (cases "a < length (heap s) \<and> o_ob (heap s ! a) = None \<and> convertible s a")
      case True
      then obtain ob s1 where n: "new_Observer (\<lambda>v t. observe n U v None t) U a s = Some (ob, s1)"
        using Suc.prems Ref by (auto split: option.splits)
      have n': "new_Observer (\<lambda>v t. observe (Suc n) U v None t) U a s = Some (ob, s1)"
        by (rule new_Observer_mono[OF le n])
      have "observe (Suc n) U v vm s =
              Some (Some ob, case vm of Some v \<Rightarrow> addVm ob v s1 | None \<Rightarrow> s1)"
        using True Ref n by simp
      moreover have "observe (Suc (Suc n)) U v vm s =
              Some (Some ob, case vm of Some v \<Rightarrow> addVm ob v s1 | None \<Rightarrow> s1)"
        using True Ref n' by (simp del: observe.simps add: observe.simps(2)[of "Suc n"])
      ultimately show ?thesis using Suc.prems by simp
    next
      case False
      then show ?thesis using Suc.prems Ref
        by (auto split: option.splits if_splits)
    qed
  qed (use Suc.prems in auto)
qed

lemma observe_mono:
  "observe n U v vm s = Some x \<Longrightarrow> n \<le> k \<Longrightarrow> observe k U v vm s = Some x"
proof (induction k)
  case 0
  then show ?case by simp
next
  case (Suc k)
  show ?case
  proof (cases "n = Suc k")
    case True
    then show ?thesis using Suc.prems by simp
  next
    case False
    then have "n \<le> k" using Suc.prems by simp
    from observe_Suc[OF Suc.IH[OF Suc.prems(1) this]] show ?thesis .
  qed
qed

lemma new_Watcher_idle:
  assumes "\<forall>d. Suc (watcher_uid s) \<notin> set (subs s d)"
  shows "idle_inv (snd (new_Watcher U v opts s)) (fst (new_Watcher U v opts s))"
proof -
  let ?w = "Suc (watcher_uid s)"
  let ?s1 = "s\<lparr>vms := (vms s)(v := (vms s v)\<lparr>vm_watchers := vm_watchers (vms s v) @ [?w]\<rparr>),
                 watcher_uid := ?w,
                 watchers := (watchers s)
                   (?w := \<lparr>w_vm = Some v, w_active = True, w_lazy = opt_lazy opts,
                          w_dirty = opt_lazy opts, w_sync = opt_sync opts, w_user = opt_user opts,
                          w_deep = opt_deep opts, w_queued = False, w_shallow = False,
                          w_deps = [], w_newDeps = [], w_depIds = {}, w_newDepIds = {},
                          w_value = Undefined\<rparr>)\<rparr>"
  have c: "count_list (subs s d) ?w = 0" for d
    using assms by (simp add: count_list_0_iff)
  have i1: "idle_inv ?s1 ?w"
    by (simp add: idle_inv_def recording_inv_def c)
  let ?s2 = "if opt_lazy opts then ?s1 else snd (get U ?w ?s1)"
  have i2: "idle_inv ?s2 ?w"
  proof (cases "opt_lazy opts")
    case True
    show ?thesis unfolding if_P[OF True] by (rule i1)
  next
    case False
    show ?thesis unfolding if_not_P[OF False] by (rule get_tracking(1)[OF i1])
  qed
  have f: "fst (new_Watcher U v opts s) = ?w"
    by (simp add: new_Watcher_def Let_def split_beta)
  let ?x = "if opt_lazy opts then Undefined else fst (get U ?w ?s1)"
  have e: "snd (new_Watcher U v opts s) =
     ?s2\<lparr>watchers := (watchers ?s2)
            (?w := (watchers ?s2 ?w)\<lparr>w_value := ?x, w_queued := False, w_shallow := False\<rparr>)\<rparr>"
    by (cases "opt_lazy opts") (simp_all add: new_Watcher_def Let_def split_beta)
  show ?thesis
    unfolding f e using i2 by (simp add: idle_inv_def recording_inv_def)
qed

section \<open>Dependency tracking of a watcher that may have been torn down\<close>

lemma addDep_from:
  assumes "recording_from P s w"
  shows "recording_from P (addDep w d s) w"
    and "w_newDepIds (watchers (addDep w d s) w) = insert d (w_newDepIds (watchers s w))"
    and "w_depIds (watchers (addDep w d s) w) = w_depIds (watchers s w)"
    and "w_deps (watchers (addDep w d s) w) = w_deps (watchers s w)"
    and "target (addDep w d s) = target s"
  using assms
  by (auto simp: recording_from_def addDep_def addSub_def Let_def)

lemma fold_track_from:
  assumes "recording_from P s w" "target s = Some w"
  shows "recording_from P (fold track ds s) w \<and> target (fold track ds s) = Some w \<and>
         w_newDepIds (watchers (fold track ds s) w) = w_newDepIds (watchers s w) \<union> set ds \<and>
         w_depIds (watchers (fold track ds s) w) = w_depIds (watchers s w) \<and>
         w_deps (watchers (fold track ds s) w) = w_deps (watchers s w)"
  using assms
proof (induction ds arbitrary: s)
  case Nil
  then show ?case by simp
next
  case (Cons d ds)
  have t: "track d s = addDep w d s" using Cons.prems by (simp add: track_def)
  have "recording_from P (addDep w d s) w" "target (addDep w d s) = Some w"
    using Cons.prems addDep_from[of P s w d] by simp_all
  from Cons.IH[OF this] show ?case
    using addDep_from[OF Cons.prems(1), of d] by (simp add: t)
qed

lemma afterGet_from:
  assumes "recording_from P s w"
  shows "between_passes (afterGet w s) w"
    and "w_depIds (watchers (afterGet w s) w) = w_newDepIds (watchers s w)"
    and "w_deps (watchers (afterGet w s) w) = w_newDeps (watchers s w)"
    and "target (afterGet w s) = None"
    and "count_list (subs (afterGet w s) e) w =
           (if e \<in> w_newDepIds (watchers s w) \<and> (e \<in> w_depIds (watchers s w) \<longrightarrow> e \<in> P)
            then 1 else 0)"
proof -
  let ?N = "w_newDepIds (watchers s w)"
  let ?D = "w_depIds (watchers s w)"
  let ?f = "\<lambda>d t. if d \<notin> ?N then removeSub d w t else t"
  let ?s2 = "fold ?f (rev (w_deps (watchers s w))) (s\<lparr>target := None\<rparr>)"
  have W: "watchers ?s2 = watchers s" by (simp add: fold_removeSub_watchers)
  have T: "target ?s2 = None" by (simp add: fold_removeSub_target)
  have C: "count_list (subs ?s2 e) w = (if e \<in> ?N \<and> (e \<in> ?D \<longrightarrow> e \<in> P) then 1 else 0)" for e
  proof -
    have "count_list (subs ?s2 e) w =
        (if e \<notin> ?N then count_list (subs s e) w - count_list (w_deps (watchers s w)) e
         else count_list (subs s e) w)"
      by (simp add: fold_removeSub_count count_list_rev)
    moreover have "e \<in> set (w_deps (watchers s w)) \<Longrightarrow> count_list (w_deps (watchers s w)) e \<ge> 1"
      by (rule count_list_mem)
    moreover have "count_list (subs s e) w = (if e \<in> P \<or> (e \<in> ?N \<and> e \<notin> ?D) then 1 else 0)"
      and "set (w_deps (watchers s w)) = ?D" and "P \<subseteq> ?D"
      using assms by (simp_all add: recording_from_def)
    ultimately show ?thesis
      by (cases "e \<in> ?N"; cases "e \<in> ?D"; cases "e \<in> P") auto
  qed
  have A: "afterGet w s = ?s2\<lparr>watchers := (watchers ?s2)
              (w := (watchers ?s2 w)\<lparr>w_depIds := w_newDepIds (watchers ?s2 w), w_newDepIds := {},
                       w_deps := w_newDeps (watchers ?s2 w), w_newDeps := []\<rparr>)\<rparr>"
    by (simp add: afterGet_def Let_def)
  have R: "distinct (w_newDeps (watchers s w))" "set (w_newDeps (watchers s w)) = ?N"
    using assms by (simp_all add: recording_from_def)
  have M: "w \<in> set (subs ?s2 e) \<Longrightarrow> e \<in> ?N" for e
    using C[of e] by (cases "e \<in> ?N") (simp_all add: count_list_0_iff)
  show "between_passes (afterGet w s) w"
    unfolding between_passes_def
    using M by (simp add: A W R C)
  show "w_depIds (watchers (afterGet w s) w) = ?N" by (simp add: A W)
  show "w_deps (watchers (afterGet w s) w) = w_newDeps (watchers s w)" by (simp add: A W)
  show "target (afterGet w s) = None" by (simp add: A T)
  show "count_list (subs (afterGet w s) e) w =
           (if e \<in> ?N \<and> (e \<in> ?D \<longrightarrow> e \<in> P) then 1 else 0)"
    using C by (simp add: A)
qed

lemma between_count:
  assumes "between_passes s w"
  shows "count_list (subs s d) w = (if w \<in> set (subs s d) then 1 else 0)"
proof (cases "w \<in> set (subs s d)")
  case True
  then have "count_list (subs s d) w \<ge> 1" by (rule count_list_mem)
  moreover have "count_list (subs s d) w \<le> 1" using assms by (simp add: between_passes_def)
  ultimately show ?thesis using True by simp
next
  case False
  then show ?thesis by (simp add: count_list_0_iff)
qed

lemma get_between:
  assumes "between_passes s w"
  shows "between_passes (snd (get U w s)) w"
    and "w_depIds (watchers (snd (get U w s)) w) = set (pass_reads U w s)"
    and "target (snd (get U w s)) = None"
    and "count_list (subs (snd (get U w s)) e) w =
           (if e \<in> set (pass_reads U w s) \<and>
               (e \<in> w_depIds (watchers s w) \<longrightarrow> w \<in> set (subs s e)) then 1 else 0)"
proof -
  obtain reads res where g: "e_getter U w (beforeGet w s) = (reads, res)"
    by (cases "e_getter U w (beforeGet w s)")
  let ?P = "{d. w \<in> set (subs s d)}"
  let ?s1 = "beforeGet w s"
  let ?s2 = "fold track reads ?s1"
  let ?v = "case res of None \<Rightarrow> Undefined | Some v \<Rightarrow> v"
  let ?tr = "if w_deep (watchers ?s2 w) then e_traverse U ?v ?s2 else []"
  let ?s3 = "fold track ?tr ?s2"
  have e: "snd (get U w s) = afterGet w ?s3"
    by (simp add: get_def g Let_def)
  have pr: "pass_reads U w s = reads @ ?tr"
    by (simp add: pass_reads_def g Let_def)
  have i1: "recording_from ?P ?s1 w"
    using assms between_count[OF assms]
    by (auto simp: between_passes_def recording_from_def beforeGet_def)
  have i1': "target ?s1 = Some w" "w_newDepIds (watchers ?s1 w) = {}"
    "w_depIds (watchers ?s1 w) = w_depIds (watchers s w)"
    using assms by (simp_all add: between_passes_def beforeGet_def)
  note f2 = fold_track_from[OF i1 i1'(1), of reads]
  have i2: "recording_from ?P ?s2 w" "target ?s2 = Some w" using f2 by simp_all
  note f3 = fold_track_from[OF i2, of ?tr]
  have n3: "w_newDepIds (watchers ?s3 w) = set (pass_reads U w s)"
    using f2 f3 i1'(2) by (simp add: pr)
  have d3: "w_depIds (watchers ?s3 w) = w_depIds (watchers s w)"
    using f2 f3 i1'(3) by simp
  have i3: "recording_from ?P ?s3 w" using f3 by simp
  note a = afterGet_from[OF i3]
  show "between_passes (snd (get U w s)) w" using a(1) by (simp add: e)
  show "w_depIds (watchers (snd (get U w s)) w) = set (pass_reads U w s)"
    using a(2) n3 by (simp add: e)
  show "target (snd (get U w s)) = None" using a(4) by (simp add: e)
  show "count_list (subs (snd (get U w s)) e) w =
           (if e \<in> set (pass_reads U w s) \<and>
               (e \<in> w_depIds (watchers s w) \<longrightarrow> w \<in> set (subs s e)) then 1 else 0)"
    using a(5)[of e] n3 d3 by (simp add: e)
qed

lemma idle_between: "idle_inv s w \<Longrightarrow> between_passes s w"
  by (auto simp: idle_inv_def recording_inv_def between_passes_def count_list_0_iff
      split: if_splits)

lemma idle_iff:
  "idle_inv s w = (between_passes s w \<and> (\<forall>d \<in> w_depIds (watchers s w). w \<in> set (subs s d)))"
proof
  assume i: "idle_inv s w"
  have "w \<in> set (subs s d)" if "d \<in> w_depIds (watchers s w)" for d
  proof -
    have "count_list (subs s d) w = 1" using i that by (simp add: idle_inv_def recording_inv_def)
    then show ?thesis by (metis count_list_0_iff zero_neq_one)
  qed
  then show "between_passes s w \<and> (\<forall>d \<in> w_depIds (watchers s w). w \<in> set (subs s d))"
    using idle_between[OF i] by blast
next
  assume a: "between_passes s w \<and> (\<forall>d \<in> w_depIds (watchers s w). w \<in> set (subs s d))"
  then have b: "between_passes s w" by simp
  have "count_list (subs s d) w = (if d \<in> w_depIds (watchers s w) then 1 else 0)" for d
    using between_count[OF b, of d] a by (auto simp: between_passes_def)
  then show "idle_inv s w"
    using b by (simp add: idle_inv_def recording_inv_def between_passes_def)
qed

lemma teardown_between:
  assumes "between_passes s w" "teardown w s = Inr t"
  shows "between_passes t w"
    and "w_active (watchers s w) \<Longrightarrow> idle_inv s w \<Longrightarrow> w \<notin> set (subs t d)"
    and "w_deps (watchers t w) = w_deps (watchers s w)"
    and "w_depIds (watchers t w) = w_depIds (watchers s w)"
proof -
  show b: "between_passes t w"
  proof (cases "w_active (watchers s w)")
    case False
    then show ?thesis using assms by (simp add: teardown_def)
  next
    case True
    then obtain v where v: "w_vm (watchers s w) = Some v"
      using assms(2) by (cases "w_vm (watchers s w)") (simp_all add: teardown_def Let_def)
    obtain s1 where t: "teardown w s =
           Inr ((fold (\<lambda>d t. removeSub d w t) (rev (w_deps (watchers s w))) s1)
                 \<lparr>watchers := (watchers s)
                     (w := (watchers s w)\<lparr>w_active := False, w_vm := None, w_value := Null\<rparr>)\<rparr>)"
      and s1: "subs s1 = subs s"
      using teardown_result[OF True v] by blast
    let ?s2 = "fold (\<lambda>d t. removeSub d w t) (rev (w_deps (watchers s w))) s1"
    have c: "count_list (subs ?s2 d) w = count_list (subs s d) w - count_list (w_deps (watchers s w)) d" for d
      by (simp add: fold_removeSub_all_count s1)
    have le: "count_list (subs ?s2 d) w \<le> 1" for d
    proof -
      have "count_list (subs s d) w \<le> 1" using assms(1) by (simp add: between_passes_def)
      then show ?thesis using c[of d] by simp
    qed
    have m: "d \<in> w_depIds (watchers s w)" if "w \<in> set (subs ?s2 d)" for d
    proof -
      have "count_list (subs ?s2 d) w \<ge> 1" using that by (rule count_list_mem)
      then have "count_list (subs s d) w \<ge> 1" using c[of d] by simp
      then have "w \<in> set (subs s d)" by (metis count_list_0_iff not_one_le_zero)
      then show ?thesis using assms(1) by (simp add: between_passes_def)
    qed
    have "t = ?s2\<lparr>watchers := (watchers s)
                     (w := (watchers s w)\<lparr>w_active := False, w_vm := None, w_value := Null\<rparr>)\<rparr>"
      using t assms(2) by simp
    then show ?thesis
      using assms(1) le m by (simp add: between_passes_def)
  qed
  show "w_deps (watchers t w) = w_deps (watchers s w)"
    using assms(2)
    by (auto simp: teardown_def Let_def fold_removeSub_all_watchers split: if_splits option.splits)
  show "w_depIds (watchers t w) = w_depIds (watchers s w)"
    using assms(2)
    by (auto simp: teardown_def Let_def fold_removeSub_all_watchers split: if_splits option.splits)
  show "w \<notin> set (subs t d)" if a: "w_active (watchers s w)" and i: "idle_inv s w"
  proof -
    obtain v where v: "w_vm (watchers s w) = Some v"
      using assms(2) a by (cases "w_vm (watchers s w)") (simp_all add: teardown_def Let_def)
    from teardown_unsubscribes[OF i a v] assms(2) show ?thesis by auto
  qed
qed

lemma addDep_other:
  assumes "x \<noteq> w"
  shows "watchers (addDep x d s) w = watchers s w"
    and "count_list (subs (addDep x d s) e) w = count_list (subs s e) w"
    and "target (addDep x d s) = target s"
  using assms by (auto simp: addDep_def addSub_def Let_def)

lemma fold_track_other:
  assumes "target s = Some x" "x \<noteq> w"
  shows "watchers (fold track ds s) w = watchers s w \<and>
         (\<forall>e. count_list (subs (fold track ds s) e) w = count_list (subs s e) w) \<and>
         target (fold track ds s) = Some x"
  using assms(1)
proof (induction ds arbitrary: s)
  case Nil
  then show ?case by simp
next
  case (Cons d ds)
  have t: "track d s = addDep x d s" using Cons.prems by (simp add: track_def)
  have "target (addDep x d s) = Some x"
    using Cons.prems by (simp add: addDep_def addSub_def Let_def)
  from Cons.IH[OF this] show ?case
    by (simp add: t addDep_other(1,2)[OF assms(2)])
qed

lemma afterGet_other:
  assumes "x \<noteq> w"
  shows "watchers (afterGet x s) w = watchers s w"
    and "count_list (subs (afterGet x s) e) w = count_list (subs s e) w"
  using assms
  by (simp_all add: afterGet_def Let_def fold_removeSub_watchers fold_removeSub_count)

lemma get_other:
  assumes "x \<noteq> w"
  shows "watchers (snd (get U x s)) w = watchers s w"
    and "count_list (subs (snd (get U x s)) e) w = count_list (subs s e) w"
proof -
  obtain reads res where g: "e_getter U x (beforeGet x s) = (reads, res)"
    by (cases "e_getter U x (beforeGet x s)")
  let ?s1 = "beforeGet x s"
  let ?s2 = "fold track reads ?s1"
  let ?v = "case res of None \<Rightarrow> Undefined | Some v \<Rightarrow> v"
  let ?tr = "if w_deep (watchers ?s2 x) then e_traverse U ?v ?s2 else []"
  let ?s3 = "fold track ?tr ?s2"
  have e: "snd (get U x s) = afterGet x ?s3"
    by (simp add: get_def g Let_def)
  have t1: "target ?s1 = Some x" by (simp add: beforeGet_def)
  note f2 = fold_track_other[OF t1 assms, of reads]
  have t2: "target ?s2 = Some x" using f2 by simp
  note f3 = fold_track_other[OF t2 assms, of ?tr]
  show "watchers (snd (get U x s)) w = watchers s w"
    using f2 f3 afterGet_other(1)[OF assms, of ?s3] by (simp add: e beforeGet_def)
  show "count_list (subs (snd (get U x s)) e) w = count_list (subs s e) w"
    using f2 f3 afterGet_other(2)[OF assms, of ?s3 e] by (simp add: e beforeGet_def)
qed

lemma teardown_other:
  assumes "x \<noteq> w" "teardown x s = Inr t"
  shows "watchers t w = watchers s w"
    and "count_list (subs t e) w = count_list (subs s e) w"
proof -
  have c: "count_list (subs (fold (\<lambda>d t. removeSub d x t) ds s1) e) w = count_list (subs s1 e) w"
    for ds and s1 :: "'a state"
    using fold_removeSub_count[of "{}" x ds s1 e w] assms(1) by simp
  show "watchers t w = watchers s w"
    using assms
    by (auto simp: teardown_def Let_def fold_removeSub_all_watchers split: if_splits option.splits)
  show "count_list (subs t e) w = count_list (subs s e) w"
    using assms(2)
    by (auto simp: teardown_def Let_def c split: if_splits option.splits)
qed

lemma between_passes_cong:
  assumes "watchers t w = watchers s w" "\<And>e. count_list (subs t e) w = count_list (subs s e) w"
  shows "between_passes t w = between_passes s w" and "idle_inv t w = idle_inv s w"
proof -
  have m: "(w \<in> set (subs t e)) = (w \<in> set (subs s e))" for e
    using assms(2)[of e] by (metis count_list_0_iff)
  show "between_passes t w = between_passes s w"
    by (simp add: between_passes_def assms m)
  show "idle_inv t w = idle_inv s w"
    by (simp add: idle_inv_def recording_inv_def assms)
qed

lemma others_keep_between:
  assumes "x \<noteq> w"
  shows "between_passes (snd (get U x s)) w = between_passes s w"
    and "idle_inv (snd (get U x s)) w = idle_inv s w"
    and "teardown x s = Inr t \<Longrightarrow> between_passes t w = between_passes s w"
    and "teardown x s = Inr t \<Longrightarrow> idle_inv t w = idle_inv s w"
  using between_passes_cong[OF get_other[OF assms]]
    between_passes_cong[OF teardown_other[OF assms]] by blast+

section \<open>Passes and rounds of the flush; observed callbacks\<close>

lemma loop_steady:
  assumes "\<not> e_dev U"
  shows "length ws < n \<Longrightarrow> the_queue uq s = pre @ ws \<Longrightarrow>
         (\<forall>j < length ws. the_queue uq (fold (step U) (take (Suc j) ws) s) = pre @ ws) \<Longrightarrow>
         runBatcherQueue_loop n U uq (length pre) s = Some (fold (step U) ws s)"
proof (induction n arbitrary: pre ws s)
  case 0
  then show ?case by simp
next
  case (Suc n)
  show ?case
  proof (cases ws)
    case Nil
    then show ?thesis using Suc.prems(2) by simp
  next
    case (Cons x xs)
    let ?s2 = "step U x s"
    have i: "length pre < length (the_queue uq s)" "the_queue uq s ! length pre = x"
      using Suc.prems(2) Cons by simp_all
    have q2: "the_queue uq ?s2 = (pre @ [x]) @ xs"
      using Suc.prems(3)[rule_format, of 0] Cons by simp
    have st: "\<forall>j < length xs. the_queue uq (fold (step U) (take (Suc j) xs) ?s2) = (pre @ [x]) @ xs"
    proof (intro allI impI)
      fix j assume "j < length xs"
      then have "Suc j < length ws" using Cons by simp
      from Suc.prems(3)[rule_format, OF this] show
        "the_queue uq (fold (step U) (take (Suc j) xs) ?s2) = (pre @ [x]) @ xs"
        using Cons by simp
    qed
    have l: "length xs < n" using Suc.prems(1) Cons by simp
    have "runBatcherQueue_loop n U uq (length (pre @ [x])) ?s2 = Some (fold (step U) xs ?s2)"
      by (rule Suc.IH[OF l q2 st])
    moreover have "run U x (s\<lparr>has := (has s)(x := None)\<rparr>) = ?s2"
      by (simp add: step_def)
    ultimately show ?thesis using i assms Cons
      by (simp add: Let_def)
  qed
qed

lemma runBatcherQueue_steady:
  assumes "\<not> e_dev U" "steady U uq s" "length (the_queue uq s) < n"
  shows "runBatcherQueue n U uq s = Some (queue_pass U uq s)"
proof -
  have "runBatcherQueue_loop n U uq (length ([]::wid list)) s =
          Some (fold (step U) (the_queue uq s) s)"
    by (rule loop_steady[OF assms(1,3)]) (use assms(2) in \<open>simp_all add: steady_def\<close>)
  then show ?thesis by (simp add: runBatcherQueue_def queue_pass_def)
qed

lemma quiet_steady: "quiet U \<Longrightarrow> steady U uq s"
  by (simp add: steady_def fold_step_queue)

lemma flush_rounds:
  assumes "\<not> e_dev U"
  shows "steady_rounds U (Suc k) L s \<Longrightarrow>
         flushBatcherQueue (Suc k + L) U s =
           Some (resetBatcherState ((flush_round U ^^ Suc k) s))"
proof (induction k arbitrary: s)
  case 0
  have h: "steady U False s" "steady U True (queue_pass U False s)"
    "length (queue s) < L" "length (userQueue (queue_pass U False s)) < L"
    "queue (flush_round U s) = []"
    using 0 by (simp_all add: steady_rounds_def)
  have 1: "runBatcherQueue L U False s = Some (queue_pass U False s)"
    using runBatcherQueue_steady[OF assms h(1)] h(3) by (simp add: the_queue_def)
  have 2: "runBatcherQueue L U True (queue_pass U False s) = Some (flush_round U s)"
    using runBatcherQueue_steady[OF assms h(2)] h(4) by (simp add: the_queue_def flush_round_def)
  show ?case using 1 2 h(5) by simp
next
  case (Suc k)
  have h: "steady U False s" "steady U True (queue_pass U False s)"
    "length (queue s) < L" "length (userQueue (queue_pass U False s)) < L"
    "queue (flush_round U s) \<noteq> []"
    using Suc.prems[unfolded steady_rounds_def, rule_format, of 0] by simp_all
  have 1: "runBatcherQueue (Suc k + L) U False s = Some (queue_pass U False s)"
    using runBatcherQueue_steady[OF assms h(1)] h(3) by (simp add: the_queue_def)
  have 2: "runBatcherQueue (Suc k + L) U True (queue_pass U False s) = Some (flush_round U s)"
    using runBatcherQueue_steady[OF assms h(2)] h(4) by (simp add: the_queue_def flush_round_def)
  have r: "steady_rounds U (Suc k) L (flush_round U s)"
    unfolding steady_rounds_def
  proof (intro allI impI)
    fix j assume "j < Suc k"
    then have "Suc j < Suc (Suc k)" by simp
    from Suc.prems[unfolded steady_rounds_def, rule_format, OF this]
    show "steady U False ((flush_round U ^^ j) (flush_round U s)) \<and>
          steady U True (queue_pass U False ((flush_round U ^^ j) (flush_round U s))) \<and>
          length (queue ((flush_round U ^^ j) (flush_round U s))) < L \<and>
          length (userQueue (queue_pass U False ((flush_round U ^^ j) (flush_round U s)))) < L \<and>
          (queue ((flush_round U ^^ Suc j) (flush_round U s)) = []) = (Suc j = Suc k)"
      by (simp add: funpow_swap1)
  qed
  have "flushBatcherQueue (Suc (Suc k) + L) U s = flushBatcherQueue (Suc k + L) U (flush_round U s)"
    using 1 2 h(5) by simp
  also have "\<dots> = Some (resetBatcherState ((flush_round U ^^ Suc k) (flush_round U s)))"
    by (rule Suc.IH[OF r])
  finally show ?case by (simp add: funpow_swap1)
qed

lemma update_sync: "\<not> w_lazy (watchers s w) \<Longrightarrow> \<not> async s \<Longrightarrow> update U w sh s = run U w s"
  by (simp add: update_def Let_def)

lemma update_queued:
  assumes "\<not> w_lazy (watchers s w)" "\<not> w_sync (watchers s w)" "async s" "has s w \<noteq> None"
  shows "queue (update U w sh s) = queue s" "userQueue (update U w sh s) = userQueue s"
    "has (update U w sh s) = has s"
  using assms by (auto simp: update_async pushWatcher_def)

lemma update_frame:
  assumes "\<not> w_lazy (watchers s w)" "\<not> w_sync (watchers s w)" "async s"
  shows "user (update U w sh s) = user s"
  using assms by (simp add: update_async pushWatcher_def Let_def)

lemma logged_log:
  assumes "\<And>x v old t. fst (user (cb x v old t)) = fst (user t)"
  shows "fst (user (logged cb x v old t)) = fst (user t) @ [(x, v, old)]"
  by (simp add: logged_def assms)

lemma step_log:
  assumes "e_cb U = logged cb" "\<And>x v old t. fst (user (cb x v old t)) = fst (user t)"
  shows "fst (user (step U x t)) =
           fst (user t) @
             (if w_active (watchers t x) \<and>
                 changed (fst (get U x (t\<lparr>has := (has t)(x := None)\<rparr>))) (watchers t x)
              then [(x, fst (get U x (t\<lparr>has := (has t)(x := None)\<rparr>)), w_value (watchers t x))]
              else [])"
proof (cases "w_active (watchers t x)")
  case False
  then show ?thesis by (simp add: step_def run_def)
next
  case True
  let ?t0 = "t\<lparr>has := (has t)(x := None)\<rparr>"
  have a: "w_active (watchers ?t0 x)" using True by simp
  show ?thesis
    unfolding step_def run_active[OF a]
    using True get_user[of U x ?t0]
    by (simp add: clear_flags_def set_value_def assms(1) logged_log[OF assms(2)])
qed

lemma step_calls_other:
  assumes "e_cb U = logged cb" "\<And>x v old t. fst (user (cb x v old t)) = fst (user t)" "x \<noteq> w"
  shows "calls_of w (step U x t) = calls_of w t"
  using assms(3) by (simp add: calls_of_def step_log[OF assms(1,2)])

lemma fold_step_calls_other:
  assumes "e_cb U = logged cb" "\<And>x v old t. fst (user (cb x v old t)) = fst (user t)"
  shows "w \<notin> set xs \<Longrightarrow> calls_of w (fold (step U) xs t) = calls_of w t"
proof (induction xs arbitrary: t)
  case Nil
  show ?case by simp
next
  case (Cons x xs)
  then have "x \<noteq> w" "w \<notin> set xs" by auto
  then show ?case using Cons.IH[of "step U x t"] step_calls_other[OF assms, of x w t] by simp
qed

lemma step_calls_self:
  assumes "e_cb U = logged cb" "\<And>x v old t. fst (user (cb x v old t)) = fst (user t)"
  shows "calls_of w (step U w t) =
           calls_of w t @
             (if w_active (watchers t w) \<and>
                 changed (fst (get U w (t\<lparr>has := (has t)(w := None)\<rparr>))) (watchers t w)
              then [(w, fst (get U w (t\<lparr>has := (has t)(w := None)\<rparr>)), w_value (watchers t w))]
              else [])"
  by (simp add: calls_of_def step_log[OF assms(1,2)])

lemma calls_of_frame [simp]:
  "calls_of w (clear_queue uq t) = calls_of w t"
  "calls_of w (resetBatcherState t) = calls_of w t"
  by (simp_all add: calls_of_def clear_queue_def resetBatcherState_def)

lemma flush_quiet_calls:
  assumes "\<not> w_lazy (watchers s w)" "\<not> w_sync (watchers s w)" "async s"
    "has s w = None" "w \<notin> set (queue s)" "w \<notin> set (userQueue s)"
    "quiet U" "\<not> e_dev U" "e_cb U = logged cb"
    "\<And>x v old t. fst (user (cb x v old t)) = fst (user t)"
    "length (queue s) + 1 < n" "length (userQueue s) + 1 < n"
  shows "flushBatcherQueue (Suc n) U (update U w False s) =
           Some (resetBatcherState (flush_round U (update U w False s)))"
    and "calls_of w (resetBatcherState (flush_round U (update U w False s))) =
           calls_of w s @
             (if w_active (watchers (turn_of U w s) w) \<and>
                 changed (fst (get U w ((turn_of U w s)\<lparr>has := (has (turn_of U w s))(w := None)\<rparr>)))
                   (watchers (turn_of U w s) w)
              then [(w, fst (get U w ((turn_of U w s)\<lparr>has := (has (turn_of U w s))(w := None)\<rparr>)),
                     w_value (watchers (turn_of U w s) w))]
              else [])"
proof -
  let ?s1 = "update U w False s"
  note e = update_enqueues[OF assms(1-4), of U]
  have u1: "calls_of w ?s1 = calls_of w s"
    by (simp add: calls_of_def update_frame[OF assms(1-3)])
  have len: "length (queue ?s1) < n" "length (userQueue ?s1) < n"
    using e(1,2) assms(11,12) by (cases "w_user (watchers s w)"; simp add: the_queue_def)+
  have f: "flushBatcherQueue (Suc n) U ?s1 =
     Some (resetBatcherState
            (fold (step U) (userQueue ?s1) (clear_queue False (fold (step U) (queue ?s1) ?s1))))"
    by (rule flush_fifo[OF assms(7,8) len])
  have uq: "userQueue (queue_pass U False ?s1) = userQueue ?s1"
    using fold_step_queue[OF assms(7), of True "queue ?s1" ?s1]
    by (simp add: queue_pass_def the_queue_def clear_queue_def)
  have uq': "userQueue (fold (step U) (queue ?s1) ?s1) = userQueue ?s1"
    using fold_step_queue[OF assms(7), of True "queue ?s1" ?s1] by (simp add: the_queue_def)
  have fr: "resetBatcherState (flush_round U ?s1) =
      resetBatcherState (fold (step U) (userQueue ?s1) (clear_queue False (fold (step U) (queue ?s1) ?s1)))"
    by (simp add: flush_round_def queue_pass_def the_queue_def uq'
        resetBatcherState_def clear_queue_def)
  show "flushBatcherQueue (Suc n) U ?s1 = Some (resetBatcherState (flush_round U ?s1))"
    using f fr by simp
  let ?tw = "turn_of U w s"
  let ?entry = "(if w_active (watchers ?tw w) \<and>
                 changed (fst (get U w (?tw\<lparr>has := (has ?tw)(w := None)\<rparr>))) (watchers ?tw w)
              then [(w, fst (get U w (?tw\<lparr>has := (has ?tw)(w := None)\<rparr>)), w_value (watchers ?tw w))]
              else [])"
  have c: "calls_of w (fold (step U) (userQueue ?s1) (clear_queue False (fold (step U) (queue ?s1) ?s1)))
        = calls_of w s @ ?entry"
  proof (cases "w_user (watchers s w)")
    case True
    then have q: "queue ?s1 = queue s" "userQueue ?s1 = userQueue s @ [w]"
      using e(1,2) by (simp_all add: the_queue_def)
    have tw: "?tw = fold (step U) (userQueue s) (clear_queue False (fold (step U) (queue s) ?s1))"
      using True by (simp add: turn_of_def queue_pass_def the_queue_def q)
    have "calls_of w ?tw = calls_of w s"
      unfolding tw
      using fold_step_calls_other[OF assms(9,10) assms(6)] fold_step_calls_other[OF assms(9,10) assms(5)]
      by (simp add: u1)
    then show ?thesis
      using step_calls_self[OF assms(9,10), of w ?tw] by (simp add: q tw[symmetric])
  next
    case False
    then have q: "queue ?s1 = queue s @ [w]" "userQueue ?s1 = userQueue s"
      using e(1,2) by (simp_all add: the_queue_def)
    have tw: "?tw = fold (step U) (queue s) ?s1"
      using False by (simp add: turn_of_def)
    have "calls_of w ?tw = calls_of w s"
      unfolding tw using fold_step_calls_other[OF assms(9,10) assms(5)] by (simp add: u1)
    then have "calls_of w (step U w ?tw) = calls_of w s @ ?entry"
      using step_calls_self[OF assms(9,10), of w ?tw] by simp
    then show ?thesis
      using fold_step_calls_other[OF assms(9,10) assms(6)]
      by (simp add: q tw[symmetric])
  qed
  show "calls_of w (resetBatcherState (flush_round U ?s1)) = calls_of w s @ ?entry"
    unfolding fr using c by simp
qed

lemma relay_rounds:
  "steady_rounds relay_env (Suc 1) 2 (update relay_env 3 False relay_state)"
  by (simp add: steady_rounds_def steady_def less_Suc_eq all_conj_distrib
        relay_env_def relay_state_def relay_cb_def silent_env_def logged_def
        empty_state_def blank_watcher_def update_def pushWatcher_def run_def get_def
        beforeGet_def afterGet_def track_def addDep_def addSub_def removeSub_def
        remove_item_def indexOf_def apply_hook_def step_def queue_pass_def flush_round_def
        the_queue_def clear_queue_def Let_def strict_eq_def)

lemma relay_log:
  "fst (user (resetBatcherState ((flush_round relay_env ^^ Suc 1) (update relay_env 3 False relay_state))))
     = [(3, Num 2, Num 1), (2, Num 2, Num 1)]"
  by (simp add: resetBatcherState_def
        relay_env_def relay_state_def relay_cb_def silent_env_def logged_def
        empty_state_def blank_watcher_def update_def pushWatcher_def run_def get_def
        beforeGet_def afterGet_def track_def addDep_def addSub_def removeSub_def
        remove_item_def indexOf_def apply_hook_def step_def queue_pass_def flush_round_def
        the_queue_def clear_queue_def Let_def strict_eq_def)

section \<open>The claims\<close>

text \<open>
  C7. \<open>Dep.notify\<close> works on the copy it takes on entry. Whatever the subscribers'
  \<open>update\<close> methods do to the state, the live subscriber list included, the calls of
  \<open>update\<close> made by one \<open>notify\<close> are the subscribers of the moment \<open>notify\<close> began, in
  their order, one call for each entry; a watcher that stands once in the list is
  called once.
\<close>

theorem notify_iterates_snapshot:
  assumes "\<forall>x t. fst (user (upd x t)) = fst (user t)"
  shows "fst (user (notify (spy upd) d s)) = fst (user s) @ subs s d \<and>
         (\<forall>w. count_list (subs s d) w = 1 \<longrightarrow>
              count_list (drop (length (fst (user s))) (fst (user (notify (spy upd) d s)))) w = 1)"
  using assms by (simp add: notify_def fold_spy_log)

theorem notify_iterates_snapshot_witness:
  "(\<forall>x t. fst (user (teardown_both x t)) = fst (user t)) \<and>
   count_list (subs two_subscribers 0) 2 = 1 \<and>
   fst (user (notify (spy teardown_both) 0 two_subscribers)) = [1, 2] \<and>
   subs (notify (spy teardown_both) 0 two_subscribers) 0 = []"
proof -
  have h: "\<forall>x t. fst (user (teardown_both x t)) = fst (user t)"
    by (simp add: teardown_both_def teardown_upd_user)
  have c: "count_list (subs two_subscribers 0) 2 = 1"
    by (simp add: two_subscribers_def empty_state_def)
  have "fst (user (notify (spy teardown_both) 0 two_subscribers)) =
          fst (user two_subscribers) @ subs two_subscribers 0"
    using notify_iterates_snapshot[OF h] by blast
  moreover have "subs (notify (spy teardown_both) 0 two_subscribers) 0 = []"
    by (simp add: notify_def spy_def teardown_both_def teardown_upd_def teardown_def
        two_subscribers_def empty_state_def blank_watcher_def blank_vm_def removeSub_def
        Let_def remove_item_def indexOf_def)
  ultimately show ?thesis using h c by (simp add: two_subscribers_def empty_state_def)
qed

text \<open>
  C1 as stated fails: watcher 1 holds Deps 0 and 1 and is torn down, which takes it out
  of both subscriber lists and leaves \<open>deps\<close> and \<open>depIds\<close> as they were. An evaluation
  after that reads Deps 1 and 2; \<open>addDep\<close> finds Dep 1 in \<open>depIds\<close> and does not
  subscribe. After the pass the watcher is in the list of Dep 2 and not in the list of
  Dep 1, which it read.
\<close>

theorem torn_down_not_resubscribed_counterexample:
  "idle_inv branch_state 1 \<and> w_active (watchers branch_state 1) \<and>
   teardown 1 branch_state = Inr (teardown_upd 1 branch_state) \<and>
   \<not> w_active (watchers (teardown_upd 1 branch_state) 1) \<and>
   pass_reads branch_env 1 (teardown_upd 1 branch_state) = [1, 2, 1] \<and>
   subs (snd (get branch_env 1 (teardown_upd 1 branch_state))) 1 = [2] \<and>
   subs (snd (get branch_env 1 (teardown_upd 1 branch_state))) 2 = [1] \<and>
   1 \<notin> set (subs (snd (get branch_env 1 (teardown_upd 1 branch_state))) 1)"
proof -
  have i: "idle_inv branch_state 1" "w_active (watchers branch_state 1)"
    by (simp_all add: idle_inv_def recording_inv_def branch_state_def empty_state_def
        blank_watcher_def)
  have t: "teardown 1 branch_state = Inr (teardown_upd 1 branch_state)"
    "\<not> w_active (watchers (teardown_upd 1 branch_state) 1)"
    by (simp_all add: teardown_upd_def teardown_def branch_state_def empty_state_def
        blank_watcher_def blank_vm_def Let_def fold_removeSub_all_watchers)
  have r: "pass_reads branch_env 1 (teardown_upd 1 branch_state) = [1, 2, 1]"
    by (simp add: pass_reads_def branch_env_def branch_state_def empty_state_def
        blank_watcher_def beforeGet_def track_def addDep_def addSub_def Let_def
        teardown_upd_def teardown_def blank_vm_def removeSub_def remove_item_def indexOf_def)
  have e: "subs (snd (get branch_env 1 (teardown_upd 1 branch_state))) 1 = [2] \<and>
     subs (snd (get branch_env 1 (teardown_upd 1 branch_state))) 2 = [1]"
    by (simp add: get_def branch_env_def branch_state_def empty_state_def blank_watcher_def
        beforeGet_def afterGet_def apply_hook_def removeSub_def track_def addDep_def
        addSub_def Let_def remove_item_def indexOf_def teardown_upd_def teardown_def blank_vm_def)
  show ?thesis using i t r e by simp
qed

text \<open>
  C1, amended. A pass of \<open>get\<close> on a watcher that is between passes leaves it in the
  subscriber list of exactly those Deps the pass read that it did not hold before the
  pass or was subscribed to before the pass. For a watcher that stands in the list of
  every Dep it holds (\<open>idle_inv\<close>: every watcher from its construction until its
  teardown) these are exactly the Deps the pass read, and the pass keeps that. In
  both cases the watcher stands at most once in a list, it has left every Dep that the
  pass did not read, the Deps read are the current buffer, each once, the scratch
  buffer is empty and the recording marker is cleared. A notification of a Dep the
  pass did not read calls the \<open>update\<close> of the subscribers of that Dep, and the watcher
  is not one of them.
\<close>

theorem get_dependency_precision:
  assumes "between_passes s w"
  shows "(\<forall>d. (w \<in> set (subs (snd (get U w s)) d)) =
              (d \<in> set (pass_reads U w s) \<and>
               (d \<in> w_depIds (watchers s w) \<longrightarrow> w \<in> set (subs s d)))) \<and>
         (idle_inv s w \<longrightarrow>
            (\<forall>d. (w \<in> set (subs (snd (get U w s)) d)) = (d \<in> set (pass_reads U w s))) \<and>
            idle_inv (snd (get U w s)) w) \<and>
         (\<forall>d. count_list (subs (snd (get U w s)) d) w \<le> 1) \<and>
         w_depIds (watchers (snd (get U w s)) w) = set (pass_reads U w s) \<and>
         set (w_deps (watchers (snd (get U w s)) w)) = set (pass_reads U w s) \<and>
         distinct (w_deps (watchers (snd (get U w s)) w)) \<and>
         w_newDeps (watchers (snd (get U w s)) w) = [] \<and>
         w_newDepIds (watchers (snd (get U w s)) w) = {} \<and>
         target (snd (get U w s)) = None \<and>
         between_passes (snd (get U w s)) w \<and>
         (\<forall>d upd. d \<notin> set (pass_reads U w s) \<longrightarrow> (\<forall>x t. fst (user (upd x t)) = fst (user t)) \<longrightarrow>
            fst (user (notify (spy upd) d (snd (get U w s)))) =
              fst (user (snd (get U w s))) @ subs (snd (get U w s)) d \<and>
            w \<notin> set (subs (snd (get U w s)) d))"
proof -
  let ?s' = "snd (get U w s)"
  let ?R = "set (pass_reads U w s)"
  note g = get_between[OF assms, of U]
  have c: "count_list (subs ?s' d) w =
      (if d \<in> ?R \<and> (d \<in> w_depIds (watchers s w) \<longrightarrow> w \<in> set (subs s d)) then 1 else 0)" for d
    by (rule g(4))
  have m: "(w \<in> set (subs ?s' d)) =
      (d \<in> ?R \<and> (d \<in> w_depIds (watchers s w) \<longrightarrow> w \<in> set (subs s d)))" for d
    using c[of d] by (rule count_le1_mem)
  have le: "count_list (subs ?s' d) w \<le> 1" for d
    using c[of d] by simp
  have b: "between_passes ?s' w" by (rule g(1))
  have d: "set (w_deps (watchers ?s' w)) = ?R" "distinct (w_deps (watchers ?s' w))"
    "w_newDeps (watchers ?s' w) = []" "w_newDepIds (watchers ?s' w) = {}"
    using b g(2) by (simp_all add: between_passes_def)
  have i: "(\<forall>d. (w \<in> set (subs ?s' d)) = (d \<in> ?R)) \<and> idle_inv ?s' w" if "idle_inv s w"
  proof -
    have "(w \<in> set (subs ?s' d)) = (d \<in> ?R)" for d
      using m[of d] that by (auto simp: idle_iff)
    then show ?thesis using b g(2) by (simp add: idle_iff)
  qed
  have sp: "fst (user (notify (spy upd) d ?s')) = fst (user ?s') @ subs ?s' d"
    if "\<forall>x t. fst (user (upd x t)) = fst (user t)" for upd d
    using that by (simp add: notify_def fold_spy_log)
  show ?thesis
    using m i le g(2) d g(3) b sp by simp
qed

theorem get_dependency_precision_witness:
  "between_passes branch_state 1 \<and> idle_inv branch_state 1 \<and>
   pass_reads branch_env 1 branch_state = [1, 2, 1] \<and>
   subs (snd (get branch_env 1 branch_state)) 0 = [] \<and>
   subs (snd (get branch_env 1 branch_state)) 1 = [1, 2] \<and>
   subs (snd (get branch_env 1 branch_state)) 2 = [1] \<and>
   w_deps (watchers (snd (get branch_env 1 branch_state)) 1) = [1, 2] \<and>
   idle_inv (snd (get branch_env 1 branch_state)) 1 \<and>
   1 \<notin> set (subs (snd (get branch_env 1 branch_state)) 0) \<and>
   fst (user (notify (spy teardown_both) 0 (snd (get branch_env 1 branch_state)))) = []"
proof -
  have h: "idle_inv branch_state 1"
    by (simp add: idle_inv_def recording_inv_def branch_state_def empty_state_def
        blank_watcher_def)
  have b: "between_passes branch_state 1" using h by (rule idle_between)
  have r: "pass_reads branch_env 1 branch_state = [1, 2, 1]"
    by (simp add: pass_reads_def branch_env_def branch_state_def empty_state_def
        blank_watcher_def beforeGet_def track_def addDep_def addSub_def Let_def)
  have u: "\<forall>x t. fst (user (teardown_both x t)) = fst (user t)"
    by (simp add: teardown_both_def teardown_upd_user)
  have e: "subs (snd (get branch_env 1 branch_state)) 0 = [] \<and>
     subs (snd (get branch_env 1 branch_state)) 1 = [1, 2] \<and>
     subs (snd (get branch_env 1 branch_state)) 2 = [1] \<and>
     w_deps (watchers (snd (get branch_env 1 branch_state)) 1) = [1, 2] \<and>
     fst (user (snd (get branch_env 1 branch_state))) = []"
    by (simp add: get_def branch_env_def branch_state_def empty_state_def blank_watcher_def
        beforeGet_def afterGet_def apply_hook_def removeSub_def track_def addDep_def
        addSub_def Let_def remove_item_def indexOf_def)
  from get_dependency_precision[OF b, of branch_env] h b r u e
  show ?thesis by simp
qed



text \<open>
  C2 as stated fails: watcher 2 holds 1, is triggered twice, and its getter evaluates
  to 1 at the flush. The flush returns and the callback log is empty: no call, not one.
\<close>

theorem unchanged_value_counterexample:
  "map_option user
     (flushBatcherQueue 3 (const_env (Some (Num 1)))
        ((update (const_env (Some (Num 1))) 2 False ^^ 2) (watching_state (Num 1)))) = Some []"
proof -
  let ?U = "const_env (Some (Num 1))"
  let ?s = "watching_state (Num 1)"
  note f = flush_after_triggers[of ?s 2 ?U 2, unfolded Let_def,
      OF watching_state_simps(3,4,6,2,7,8,9) const_env_simps(1,2)]
  have w: "watchers (update ?U 2 False ?s) 2 =
      (watchers ?s 2)\<lparr>w_shallow := False, w_queued := True\<rparr>"
    by (simp add: update_async watching_state_simps pushWatcher_def Let_def)
  have "\<not> changed (Num 1) ((watchers ?s 2)\<lparr>w_shallow := False, w_queued := True\<rparr>)"
    by (simp add: changed_def strict_eq_def watching_state_def blank_watcher_def)
  then show ?thesis
    using f update_many[of ?s 2 2 ?U]
    by (auto simp: const_env_get w watching_state_simps)
qed

text \<open>
  C2, amended. For a watcher that is neither lazy nor synchronous and \<open>N \<ge> 1\<close>
  triggers. With \<open>config.async\<close> off each \<open>update\<close> is a \<open>run\<close> and nothing is queued.
  With \<open>config.async\<close> on the \<open>N\<close> calls of \<open>update\<close> leave the state one call leaves:
  the watcher is put once at the end of its queue when \<open>has\<close> did not hold its id, and
  the queues and \<open>has\<close> are as before when it did (\<open>pushWatcher\<close> does nothing for an
  id that \<open>has\<close> holds). In the bundle as built, a pass of \<open>runBatcherQueue\<close> onto whose
  queue nothing is pushed while it runs returns, having run the watchers of the queue
  in order and emptied it; a flush whose rounds are such passes makes the round (first
  queue, then user queue) again as long as the first queue is not empty after a round,
  and resets the batcher after the first round that leaves it empty. When the watcher was
  not queued before the first trigger and no callback pushes a watcher, the flush
  after the \<open>N\<close> triggers is one round and returns; of the callback of the watcher it
  adds to the log one call, with the value computed at its turn and the value held
  then, when the watcher is active and that value passes the test of \<open>run\<close>
  (\<open>changed\<close>), and no call otherwise.
\<close>

theorem batched_triggers_run_once:
  assumes "\<not> w_lazy (watchers s w)" "\<not> w_sync (watchers s w)" "1 \<le> N"
  shows "(\<not> async s \<longrightarrow> update U w False s = run U w s) \<and>
    (async s \<longrightarrow>
       (update U w False ^^ N) s = update U w False s \<and>
       (has s w = None \<longrightarrow>
          the_queue (w_user (watchers s w)) (update U w False s) =
            the_queue (w_user (watchers s w)) s @ [w] \<and>
          the_queue (\<not> w_user (watchers s w)) (update U w False s) =
            the_queue (\<not> w_user (watchers s w)) s \<and>
          has (update U w False s) w \<noteq> None) \<and>
       (has s w \<noteq> None \<longrightarrow>
          queue (update U w False s) = queue s \<and> userQueue (update U w False s) = userQueue s \<and>
          has (update U w False s) = has s)) \<and>
    (\<forall>t. has t w \<noteq> None \<longrightarrow> pushWatcher w t = t) \<and>
    (\<forall>t uq n. \<not> e_dev U \<and> steady U uq t \<and> length (the_queue uq t) < n \<longrightarrow>
       runBatcherQueue n U uq t = Some (queue_pass U uq t)) \<and>
    (\<forall>t k L. \<not> e_dev U \<and> steady_rounds U (Suc k) L t \<longrightarrow>
       flushBatcherQueue (Suc k + L) U t =
         Some (resetBatcherState ((flush_round U ^^ Suc k) t))) \<and>
    (async s \<and> has s w = None \<and> w \<notin> set (queue s) \<and> w \<notin> set (userQueue s) \<and>
     quiet U \<and> \<not> e_dev U \<and> e_cb U = logged cb \<and>
     (\<forall>x v old t. fst (user (cb x v old t)) = fst (user t)) \<longrightarrow>
       (\<forall>n. length (queue s) + 1 < n \<and> length (userQueue s) + 1 < n \<longrightarrow>
          flushBatcherQueue (Suc n) U ((update U w False ^^ N) s) =
            Some (resetBatcherState (flush_round U (update U w False s))) \<and>
          calls_of w (resetBatcherState (flush_round U (update U w False s))) =
            calls_of w s @
              (if w_active (watchers (turn_of U w s) w) \<and>
                  changed (fst (get U w ((turn_of U w s)\<lparr>has := (has (turn_of U w s))(w := None)\<rparr>)))
                    (watchers (turn_of U w s) w)
               then [(w, fst (get U w ((turn_of U w s)\<lparr>has := (has (turn_of U w s))(w := None)\<rparr>)),
                      w_value (watchers (turn_of U w s) w))]
               else [])))"
proof -
  have 1: "\<not> async s \<longrightarrow> update U w False s = run U w s"
    using update_sync[OF assms(1)] by simp
  have 2: "(update U w False ^^ N) s = update U w False s" if "async s"
    by (rule update_many[OF assms(1,2) that assms(3)])
  have 3: "the_queue (w_user (watchers s w)) (update U w False s) =
            the_queue (w_user (watchers s w)) s @ [w] \<and>
          the_queue (\<not> w_user (watchers s w)) (update U w False s) =
            the_queue (\<not> w_user (watchers s w)) s \<and>
          has (update U w False s) w \<noteq> None" if "async s" "has s w = None"
    using update_enqueues[OF assms(1,2) that, of U] by simp
  have 4: "queue (update U w False s) = queue s \<and> userQueue (update U w False s) = userQueue s \<and>
          has (update U w False s) = has s" if "async s" "has s w \<noteq> None"
    using update_queued[OF assms(1,2) that, of U False] by simp
  have 5: "\<forall>t. has t w \<noteq> None \<longrightarrow> pushWatcher w t = t"
    using pushWatcher_noop[of _ w] by blast
  have 6: "\<forall>t uq n. \<not> e_dev U \<and> steady U uq t \<and> length (the_queue uq t) < n \<longrightarrow>
       runBatcherQueue n U uq t = Some (queue_pass U uq t)"
    using runBatcherQueue_steady[of U] by blast
  have 7: "\<forall>t k L. \<not> e_dev U \<and> steady_rounds U (Suc k) L t \<longrightarrow>
       flushBatcherQueue (Suc k + L) U t =
         Some (resetBatcherState ((flush_round U ^^ Suc k) t))"
    using flush_rounds[of U] by blast
  have 8: "flushBatcherQueue (Suc n) U ((update U w False ^^ N) s) =
            Some (resetBatcherState (flush_round U (update U w False s))) \<and>
          calls_of w (resetBatcherState (flush_round U (update U w False s))) =
            calls_of w s @
              (if w_active (watchers (turn_of U w s) w) \<and>
                  changed (fst (get U w ((turn_of U w s)\<lparr>has := (has (turn_of U w s))(w := None)\<rparr>)))
                    (watchers (turn_of U w s) w)
               then [(w, fst (get U w ((turn_of U w s)\<lparr>has := (has (turn_of U w s))(w := None)\<rparr>)),
                      w_value (watchers (turn_of U w s) w))]
               else [])"
    if h: "async s" "has s w = None" "w \<notin> set (queue s)" "w \<notin> set (userQueue s)"
      "quiet U" "\<not> e_dev U" "e_cb U = logged cb"
      "\<forall>x v old t. fst (user (cb x v old t)) = fst (user t)"
      "length (queue s) + 1 < n" "length (userQueue s) + 1 < n" for n
  proof -
    have c: "\<And>x v old t. fst (user (cb x v old t)) = fst (user t)" using h(8) by blast
    show ?thesis
      unfolding 2[OF h(1)]
      using flush_quiet_calls[OF assms(1,2) h(1-7) c h(9,10)] by blast
  qed
  show ?thesis
    using 1 2 3 4 5 6 7 8 by blast
qed

theorem batched_triggers_run_once_witness:
  "\<not> w_lazy (watchers relay_state 2) \<and> \<not> w_sync (watchers relay_state 2) \<and>
   async relay_state \<and> has relay_state 2 = None \<and>
   2 \<notin> set (queue relay_state) \<and> 2 \<notin> set (userQueue relay_state) \<and>
   quiet (silent_env (Some (Num 2))) \<and> \<not> e_dev (silent_env (Some (Num 2))) \<and>
   queue ((update (silent_env (Some (Num 2))) 2 False ^^ 3) relay_state) = [2] \<and>
   map_option (calls_of 2)
     (flushBatcherQueue 3 (silent_env (Some (Num 2)))
        ((update (silent_env (Some (Num 2))) 2 False ^^ 3) relay_state)) = Some [(2, Num 2, Num 1)] \<and>
   \<not> quiet relay_env \<and>
   steady_rounds relay_env 2 2 (update relay_env 3 False relay_state) \<and>
   queue (flush_round relay_env (update relay_env 3 False relay_state)) = [2] \<and>
   map_option (\<lambda>t. fst (user t))
     (flushBatcherQueue 4 relay_env (update relay_env 3 False relay_state)) =
       Some [(3, Num 2, Num 1), (2, Num 2, Num 1)]"
proof -
  let ?U = "silent_env (Some (Num 2))"
  let ?R = "update relay_env 3 False relay_state"
  let ?tw = "turn_of ?U 2 relay_state"
  let ?v = "fst (get ?U 2 (?tw\<lparr>has := (has ?tw)(2 := None)\<rparr>))"
  have N: "(1::nat) \<le> 3" by simp
  have f: "\<not> w_lazy (watchers relay_state 2)" "\<not> w_sync (watchers relay_state 2)"
    "\<not> w_lazy (watchers relay_state 3)" "\<not> w_sync (watchers relay_state 3)"
    "async relay_state" "has relay_state 2 = None"
    "2 \<notin> set (queue relay_state)" "2 \<notin> set (userQueue relay_state)"
    "queue relay_state = []" "userQueue relay_state = []" "\<not> w_user (watchers relay_state 2)"
    by (simp_all add: relay_state_def empty_state_def blank_watcher_def)
  have q: "quiet ?U" "\<not> e_dev ?U" "e_cb ?U = logged (\<lambda>w v old t. t)" "\<not> e_dev relay_env"
    by (simp_all add: quiet_def silent_env_def relay_env_def logged_def)
  note a = batched_triggers_run_once[OF f(1,2) N, of ?U "\<lambda>w v old t. t"]
  note b = batched_triggers_run_once[OF f(3,4) N, of relay_env]
  note a2 = a[THEN conjunct2, THEN conjunct1, rule_format, OF f(5)]
  have m: "(update ?U 2 False ^^ 3) relay_state = update ?U 2 False relay_state"
    by (rule a2[THEN conjunct1])
  have e: "queue ((update ?U 2 False ^^ 3) relay_state) = [2]"
    unfolding m
    using a2[THEN conjunct2, THEN conjunct1, rule_format, OF f(6), THEN conjunct1] f(9,11)
    by (simp add: the_queue_def)
  have pre: "async relay_state \<and> has relay_state 2 = None \<and> 2 \<notin> set (queue relay_state) \<and>
     2 \<notin> set (userQueue relay_state) \<and> quiet ?U \<and> \<not> e_dev ?U \<and>
     e_cb ?U = logged (\<lambda>w v old t. t) \<and>
     (\<forall>x v old t. fst (user ((\<lambda>w v old t. t) x v old (t::((wid \<times> val \<times> val) list \<times> unit) state))) = fst (user t))"
    using f q by simp
  have len: "length (queue relay_state) + 1 < 2 \<and> length (userQueue relay_state) + 1 < 2"
    using f(9,10) by simp
  note a6 = a[THEN conjunct2, THEN conjunct2, THEN conjunct2, THEN conjunct2, THEN conjunct2,
      rule_format, OF pre len]
  have three: "flushBatcherQueue 3 ?U ((update ?U 2 False ^^ 3) relay_state) =
      flushBatcherQueue (Suc 2) ?U ((update ?U 2 False ^^ 3) relay_state)"
    by (rule arg_cong[where f = "\<lambda>n. flushBatcherQueue n ?U ((update ?U 2 False ^^ 3) relay_state)"]) simp
  have ev: "w_active (watchers ?tw 2)" "changed ?v (watchers ?tw 2)" "?v = Num 2"
    "w_value (watchers ?tw 2) = Num 1" "calls_of 2 relay_state = []"
    by (simp_all add: turn_of_def changed_def calls_of_def relay_state_def
        silent_env_def logged_def empty_state_def
        blank_watcher_def update_def pushWatcher_def run_def get_def beforeGet_def afterGet_def
        track_def addDep_def addSub_def removeSub_def remove_item_def indexOf_def apply_hook_def
        step_def queue_pass_def the_queue_def clear_queue_def Let_def strict_eq_def)
  have c: "map_option (calls_of 2)
     (flushBatcherQueue 3 ?U ((update ?U 2 False ^^ 3) relay_state)) = Some [(2, Num 2, Num 1)]"
    unfolding three a6[THEN conjunct1] option.map a6[THEN conjunct2]
    using ev by simp
  have nq: "\<not> quiet relay_env"
  proof
    assume "quiet relay_env"
    then have "queue (e_cb relay_env 3 Undefined Undefined relay_state) = queue relay_state"
      unfolding quiet_def by blast
    then show False
      by (simp add: relay_env_def relay_state_def relay_cb_def silent_env_def logged_def
          empty_state_def blank_watcher_def update_def pushWatcher_def Let_def)
  qed
  have r: "steady_rounds relay_env 2 2 ?R"
    using relay_rounds by (simp only: Suc_1)
  have pre2: "\<not> e_dev relay_env \<and> steady_rounds relay_env (Suc 1) 2 ?R"
    using q(4) relay_rounds by simp
  note b5 = b[THEN conjunct2, THEN conjunct2, THEN conjunct2, THEN conjunct2, THEN conjunct1,
      rule_format, OF pre2]
  have four: "flushBatcherQueue 4 relay_env ?R = flushBatcherQueue (Suc 1 + 2) relay_env ?R"
    by (rule arg_cong[where f = "\<lambda>n. flushBatcherQueue n relay_env ?R"]) simp
  have l: "map_option (\<lambda>t. fst (user t)) (flushBatcherQueue 4 relay_env ?R) =
       Some [(3, Num 2, Num 1), (2, Num 2, Num 1)]"
    unfolding four b5 option.map relay_log ..
  have q1: "queue (flush_round relay_env ?R) = [2]"
    by (simp add: relay_env_def relay_state_def relay_cb_def silent_env_def logged_def
        empty_state_def blank_watcher_def update_def pushWatcher_def run_def get_def
        beforeGet_def afterGet_def track_def addDep_def addSub_def removeSub_def
        remove_item_def indexOf_def apply_hook_def step_def queue_pass_def flush_round_def
        the_queue_def clear_queue_def Let_def strict_eq_def)
  show ?thesis using f(1,2,5-8) q(1,2) e c nq r q1 l by blast
qed







text \<open>
  C10. \<open>Dep.prototype.depend\<close> throws a TypeError exactly when no watcher is recording;
  while one is, it returns and registers the Dep on it (so it returns after
  \<open>beforeGet\<close>). The reactive getter never throws: it calls \<open>depend()\<close> only under its
  test of \<open>Dep.target\<close>, and with no watcher recording it returns the value and leaves
  the state alone.
\<close>

theorem depend_needs_target:
  "(target s = None \<longrightarrow> depend d s = Inl TypeError) \<and>
   (\<forall>w. target s = Some w \<longrightarrow> depend d s = Inr (addDep w d s)) \<and>
   (\<forall>w. depend d (beforeGet w s) = Inr (addDep w d (beforeGet w s))) \<and>
   (\<exists>v t. reactiveGetter U c s = Inr (v, t)) \<and>
   (target s = None \<longrightarrow> reactiveGetter U c s = Inr (current_value U c s, s))"
  using reactiveGetter_returns[of U c s]
  by (simp add: depend_def beforeGet_def reactiveGetter_def)

theorem depend_needs_target_witness:
  "target (closure_state (Num 1)) = None \<and>
   depend 3 (closure_state (Num 1)) = Inl TypeError \<and>
   reactiveGetter branch_env 0 (closure_state (Num 1)) = Inr (Num 1, closure_state (Num 1)) \<and>
   target (beforeGet 2 (closure_state (Num 1))) = Some 2 \<and>
   map_sum id (\<lambda>t. subs t 5) (depend 5 (beforeGet 2 (closure_state (Num 1)))) = Inr [2]"
proof -
  have n: "target (closure_state (Num 1)) = None"
    by (simp add: closure_state_def empty_state_def)
  have v: "current_value branch_env 0 (closure_state (Num 1)) = Num 1"
    by (simp add: current_value_def closure_state_def empty_state_def blank_closure_def)
  have b: "target (beforeGet 2 (closure_state (Num 1))) = Some 2"
    by (simp add: beforeGet_def)
  have a: "subs (addDep 2 5 (beforeGet 2 (closure_state (Num 1)))) 5 = [2]"
    by (simp add: addDep_def addSub_def beforeGet_def closure_state_def empty_state_def
        blank_watcher_def Let_def)
  note t = depend_needs_target[of "closure_state (Num 1)" 3 branch_env 0]
  note t2 = depend_needs_target[of "closure_state (Num 1)" 5 branch_env 0]
  show ?thesis
    using t t2 n v b a by simp
qed

text \<open>
  C3 as stated fails: the property holds NaN, NaN is assigned, and the subscriber
  (watcher 2) receives \<open>update()\<close>.
\<close>

theorem nan_assignment_notifies_counterexample:
  "current_value branch_env 0 (closure_state NaN) = NaN \<and>
   map_option (\<lambda>t. fst (user t))
     (reactiveSetter (\<lambda>v t. observe 1 branch_env v None t) branch_env (spy (\<lambda>x t. t)) 0 NaN
        (closure_state NaN)) = Some [2]"
  by (simp add: reactiveSetter_def current_value_def closure_state_def empty_state_def
      blank_closure_def strict_eq_def notify_def spy_def Let_def)

text \<open>
  C3, amended. The reactive setter returns at once, leaving the state as it was
  (nothing stored, nothing observed, no subscriber called), when the new value is
  \<open>===\<close> the current one. For every other value, NaN over NaN included, it stores the
  value (through the captured setter, or in the closure variable), observes it, keeps
  the Observer as \<open>childOb\<close> and calls \<open>notify()\<close> on the property's Dep: each subscriber
  of that Dep is called once.
\<close>

theorem setter_equality_short_circuit:
  "(strict_eq newVal (current_value U c s) \<longrightarrow> reactiveSetter obs U upd c newVal s = Some s) \<and>
   (\<not> strict_eq newVal (current_value U c s) \<longrightarrow>
      reactiveSetter obs U upd c newVal s =
        (case obs newVal (store_value U c newVal s) of
           None \<Rightarrow> None
         | Some (childOb, s2) \<Rightarrow>
             Some (notify upd (c_dep (closures s2 c)) (set_childOb c childOb s2)))) \<and>
   \<not> strict_eq NaN (current_value U c s) \<and>
   (\<forall>upd' childOb s2.
      (\<forall>x t. fst (user (upd' x t)) = fst (user t)) \<and> \<not> strict_eq newVal (current_value U c s) \<and>
      obs newVal (store_value U c newVal s) = Some (childOb, s2) \<longrightarrow>
      map_option (\<lambda>t. fst (user t)) (reactiveSetter obs U (spy upd') c newVal s) =
        Some (fst (user s2) @ subs s2 (c_dep (closures s2 c))))"
proof -
  have 3: "\<not> strict_eq NaN (current_value U c s)" by (simp add: strict_eq_def)
  have 4: "map_option (\<lambda>t. fst (user t)) (reactiveSetter obs U (spy upd') c newVal s) =
        Some (fst (user s2) @ subs s2 (c_dep (closures s2 c)))"
    if "\<forall>x t. fst (user (upd' x t)) = fst (user t)" "\<not> strict_eq newVal (current_value U c s)"
       "obs newVal (store_value U c newVal s) = Some (childOb, s2)" for upd' childOb s2
    using that
    by (simp add: reactiveSetter_other notify_def fold_spy_log set_childOb_def)
  show ?thesis
    using reactiveSetter_same reactiveSetter_other 3 4 by blast
qed

theorem setter_equality_short_circuit_witness:
  "strict_eq (Num 1) (current_value branch_env 0 (closure_state (Num 1))) \<and>
   reactiveSetter (\<lambda>v t. observe 1 branch_env v None t) branch_env (spy (\<lambda>x t. t)) 0 (Num 1)
     (closure_state (Num 1)) = Some (closure_state (Num 1)) \<and>
   \<not> strict_eq (Num 2) (current_value branch_env 0 (closure_state (Num 1))) \<and>
   map_option (\<lambda>t. (fst (user t), c_val (closures t 0)))
     (reactiveSetter (\<lambda>v t. observe 1 branch_env v None t) branch_env (spy (\<lambda>x t. t)) 0 (Num 2)
        (closure_state (Num 1))) = Some ([2], Num 2)"
proof -
  let ?obs = "\<lambda>v t. observe 1 branch_env v None t"
  have v: "current_value branch_env 0 (closure_state (Num 1)) = Num 1"
    by (simp add: current_value_def closure_state_def empty_state_def blank_closure_def)
  note t = setter_equality_short_circuit[of "Num 1" branch_env 0 "closure_state (Num 1)" ?obs
      "spy (\<lambda>x t. t)"]
  have e: "map_option (\<lambda>t. (fst (user t), c_val (closures t 0)))
     (reactiveSetter ?obs branch_env (spy (\<lambda>x t. t)) 0 (Num 2) (closure_state (Num 1)))
     = Some ([2], Num 2)"
    by (simp add: reactiveSetter_def current_value_def closure_state_def empty_state_def
        blank_closure_def strict_eq_def notify_def spy_def Let_def)
  show ?thesis using t e by (simp add: v strict_eq_def)
qed

text \<open>
  C8 as stated fails: an object that was observed and then frozen is non-extensible,
  and \<open>observe\<close> returns its Observer, not \<open>undefined\<close>.
\<close>

theorem observed_frozen_counterexample:
  "\<not> o_extensible (heap frozen_observed ! 0) \<and>
   observe 1 branch_env (Ref 0) None frozen_observed = Some (Some 0, frozen_observed)"
  by (simp add: frozen_observed_def empty_state_def plain_obj_def)

text \<open>
  C8, amended. \<open>observe\<close> returns \<open>undefined\<close> and leaves the state alone for a value
  that is no object, and for an object with no Observer that is not convertible
  (conversion switched off, neither array nor plain object, non-extensible, or marked
  \<open>_isVue\<close>). An object that has an Observer gets that Observer back, whatever its
  extensibility and marker (and the \<open>vm\<close>, when one is given, is added to it). For a
  convertible object with no Observer, every bound above the number of unobserved
  objects makes the call return: the result is a new Observer, the object carries it
  as \<open>__ob__\<close>, and every later call returns that Observer and leaves the state as it
  is.
\<close>

theorem observe_contract:
  "((\<forall>a. value \<noteq> Ref a) \<longrightarrow> observe (Suc n) U value vm s = Some (None, s)) \<and>
   (a < length (heap s) \<and> o_ob (heap s ! a) = None \<and> \<not> convertible s a \<longrightarrow>
      observe (Suc n) U (Ref a) vm s = Some (None, s)) \<and>
   (a < length (heap s) \<and> o_ob (heap s ! a) = Some ob \<longrightarrow>
      observe (Suc n) U (Ref a) None s = Some (Some ob, s) \<and>
      observe (Suc n) U (Ref a) (Some v) s = Some (Some ob, addVm ob v s)) \<and>
   (a < length (heap s) \<and> o_ob (heap s ! a) = None \<and> convertible s a \<longrightarrow>
      (\<exists>t. (\<forall>k. unobserved s < k \<longrightarrow>
                 observe k U (Ref a) vm s = Some (Some (observer_uid s), t)) \<and>
           a < length (heap t) \<and> o_ob (heap t ! a) = Some (observer_uid s) \<and>
           ob_value (observers t (observer_uid s)) = a \<and>
           (\<forall>m U'. observe (Suc m) U' (Ref a) None t = Some (Some (observer_uid s), t))))"
proof -
  have 1: "(\<forall>a. value \<noteq> Ref a) \<longrightarrow> observe (Suc n) U value vm s = Some (None, s)"
    by (cases "value") auto
  have 2: "a < length (heap s) \<and> o_ob (heap s ! a) = None \<and> \<not> convertible s a \<longrightarrow>
      observe (Suc n) U (Ref a) vm s = Some (None, s)"
    by simp
  have 3: "a < length (heap s) \<and> o_ob (heap s ! a) = Some ob \<longrightarrow>
      observe (Suc n) U (Ref a) None s = Some (Some ob, s) \<and>
      observe (Suc n) U (Ref a) (Some v) s = Some (Some ob, addVm ob v s)"
    by simp
  have 4: "\<exists>t. (\<forall>k. unobserved s < k \<longrightarrow>
                 observe k U (Ref a) vm s = Some (Some (observer_uid s), t)) \<and>
           a < length (heap t) \<and> o_ob (heap t ! a) = Some (observer_uid s) \<and>
           ob_value (observers t (observer_uid s)) = a \<and>
           (\<forall>m U'. observe (Suc m) U' (Ref a) None t = Some (Some (observer_uid s), t))"
    if h: "a < length (heap s)" "o_ob (heap s ! a) = None" "convertible s a"
  proof -
    obtain r t where o: "observe (Suc (unobserved s)) U (Ref a) vm s = Some (r, t)"
      using observe_total[of s "Suc (unobserved s)"] by blast
    note p = observe_result(3)[OF o h]
    have i: "observe (Suc m) U' (Ref a) None t = Some (Some (observer_uid s), t)" for m U'
      using p by (simp add: observe_existing)
    have "observe k U (Ref a) vm s = Some (Some (observer_uid s), t)" if "unobserved s < k" for k
      using observe_mono[OF o, of k] that p by simp
    then show ?thesis using p i observe_attaches[OF o h] by blast
  qed
  show ?thesis using 1 2 3 4 by blast
qed

theorem observe_contract_witness:
  "0 < length (heap nested_state) \<and> o_ob (heap nested_state ! 0) = None \<and>
   convertible nested_state 0 \<and> unobserved nested_state < 3 \<and>
   map_option (\<lambda>(r, t). (r, map o_ob (heap t))) (observe 3 branch_env (Ref 0) None nested_state) =
     Some (Some 0, [Some 0, Some 1]) \<and>
   map_option (\<lambda>(r, t). observe 1 branch_env (Ref 0) None t = Some (Some 0, t))
     (observe 3 branch_env (Ref 0) None nested_state) = Some True \<and>
   observe 1 branch_env (Num 3) None nested_state = Some (None, nested_state)"
proof -
  note t = observe_contract[of "Num 3" 0 branch_env None nested_state 0 _ _]
  obtain t' where k: "\<forall>k. 2 < k \<longrightarrow> observe k branch_env (Ref 0) None nested_state = Some (Some 0, t')"
    and i: "\<forall>m U'. observe (Suc m) U' (Ref 0) None t' = Some (Some 0, t')"
    using t by (auto simp: nested_state_simps simp del: observe.simps)
  have o: "observe 3 branch_env (Ref 0) None nested_state = Some (Some 0, t')"
    using k by simp
  have b: "observe (Suc 0) branch_env (Num 3) None nested_state = Some (None, nested_state)"
    using t by (simp del: observe.simps)
  have e: "map_option (\<lambda>(r, t). (r, map o_ob (heap t))) (observe 3 branch_env (Ref 0) None nested_state) =
     Some (Some 0, [Some 0, Some 1])"
    by (simp add: nested_state_def empty_state_def plain_obj_def data_prop_def convertible_def
      new_Observer_def new_Dep_def walk_def object_keys_def read_prop_def own_prop_def
      defineReactive_def defineProperty_def slot_getter_def slot_setter_def Let_def
      numeral_3_eq_3)
  show ?thesis
    using o i[rule_format, of 0 branch_env] b e
    by (simp del: observe.simps add: nested_state_simps)
qed



end
